theory Spec2Isabelle
  imports Complex_Main "HOL-Library.Multiset" "HOL-Library.Log_Nat"
begin

section \<open>Curves3D: parametric curves and the filter / sort / sum pipeline\<close>

text \<open>
  The development follows \<^verbatim>\<open>Curves3D.cpp\<close>: the three curve classes with their
  constructors and virtual functions, and steps (4) to (6) of \<^verbatim>\<open>main\<close>, which extract the
  circles, sort them by radius and sum the radii. Steps (2) and (3) draw random curves and
  print them; they are not modelled.

  \<^verbatim>\<open>std::sort\<close> is library code. It is given twice: by its contract in the C++ standard,
  which every implementation meets, and by the algorithm of the GNU C++ library, which
  decides the order of circles with equal radii.

  The C++ type \<^verbatim>\<open>double\<close> is read as \<^typ>\<open>real\<close> with exact arithmetic, and the macro
  \<^verbatim>\<open>M_PI\<close> as \<^term>\<open>pi\<close>. Two results of the program depend on the rounding of the
  machine arithmetic: the third component of a helix position and the sum of the radii.
  For these the operations are given a second time with the rounding of IEEE binary64.
\<close>

subsection \<open>Vec3\<close>

record Vec3 =
  x :: real
  y :: real
  z :: real

subsection \<open>The classes Circle, Ellipse and Helix\<close>

text \<open>
  Each class is a record of its private fields; the function of the same name is the
  constructor with its member initialisers.
\<close>

record Circle =
  r :: real

definition Circle :: "real \<Rightarrow> Circle" where
  "Circle radius = \<lparr> r = (if radius > 0 then radius else 1) \<rparr>"

definition getRadius :: "Circle \<Rightarrow> real" where
  "getRadius c = Circle.r c"

definition Circle_getPoint :: "Circle \<Rightarrow> real \<Rightarrow> Vec3" where
  "Circle_getPoint c t =
     \<lparr> x = Circle.r c * cos t, y = Circle.r c * sin t, z = 0 \<rparr>"

definition Circle_getDerivative :: "Circle \<Rightarrow> real \<Rightarrow> Vec3" where
  "Circle_getDerivative c t =
     \<lparr> x = - Circle.r c * sin t, y = Circle.r c * cos t, z = 0 \<rparr>"

record Ellipse =
  rx :: real
  ry :: real

definition Ellipse :: "real \<Rightarrow> real \<Rightarrow> Ellipse" where
  "Ellipse rx' ry' =
     \<lparr> rx = (if rx' > 0 then rx' else 1), ry = (if ry' > 0 then ry' else 1) \<rparr>"

definition Ellipse_getPoint :: "Ellipse \<Rightarrow> real \<Rightarrow> Vec3" where
  "Ellipse_getPoint e t =
     \<lparr> x = Ellipse.rx e * cos t, y = Ellipse.ry e * sin t, z = 0 \<rparr>"

definition Ellipse_getDerivative :: "Ellipse \<Rightarrow> real \<Rightarrow> Vec3" where
  "Ellipse_getDerivative e t =
     \<lparr> x = - Ellipse.rx e * sin t, y = Ellipse.ry e * cos t, z = 0 \<rparr>"

text \<open>The macro \<^verbatim>\<open>M_PI\<close> of \<^verbatim>\<open><cmath>\<close>, in exact arithmetic.\<close>

definition M_PI :: real where
  "M_PI = pi"

record Helix =
  r :: real
  step :: real

definition Helix :: "real \<Rightarrow> real \<Rightarrow> Helix" where
  "Helix radius step' =
     \<lparr> r = (if radius > 0 then radius else 1), step = step' \<rparr>"

definition Helix_getPoint :: "Helix \<Rightarrow> real \<Rightarrow> Vec3" where
  "Helix_getPoint h t =
     \<lparr> x = Helix.r h * cos t, y = Helix.r h * sin t,
       z = Helix.step h * t / (2 * M_PI) \<rparr>"

definition Helix_getDerivative :: "Helix \<Rightarrow> real \<Rightarrow> Vec3" where
  "Helix_getDerivative h t =
     \<lparr> x = - Helix.r h * sin t, y = Helix.r h * cos t,
       z = Helix.step h / (2 * M_PI) \<rparr>"

subsection \<open>The abstract class Curve and virtual dispatch\<close>

text \<open>
  An object seen through a \<^verbatim>\<open>Curve\<close> pointer has one of three dynamic types; the virtual
  functions dispatch on it.
\<close>

datatype Curve = Circle_obj Circle | Ellipse_obj Ellipse | Helix_obj Helix

fun getPoint :: "Curve \<Rightarrow> real \<Rightarrow> Vec3" where
  "getPoint (Circle_obj c) t = Circle_getPoint c t"
| "getPoint (Ellipse_obj e) t = Ellipse_getPoint e t"
| "getPoint (Helix_obj h) t = Helix_getPoint h t"

fun getDerivative :: "Curve \<Rightarrow> real \<Rightarrow> Vec3" where
  "getDerivative (Circle_obj c) t = Circle_getDerivative c t"
| "getDerivative (Ellipse_obj e) t = Ellipse_getDerivative e t"
| "getDerivative (Helix_obj h) t = Helix_getDerivative h t"

subsection \<open>Shared pointers\<close>

text \<open>
  A \<^verbatim>\<open>std::shared_ptr\<close> is empty or refers to an object. The objects of the program are
  never modified after construction, so a non-empty pointer is the address of its object
  (its identity) together with the object's value.
\<close>

type_synonym addr = nat

datatype 'a shared_ptr = nullptr | Ptr addr 'a

text \<open>
  \<^verbatim>\<open>std::dynamic_pointer_cast<Circle>\<close>: the same object when its dynamic type is
  \<^verbatim>\<open>Circle\<close>, the empty pointer otherwise and on the empty pointer.
\<close>

fun dynamic_pointer_cast_Circle :: "Curve shared_ptr \<Rightarrow> Circle shared_ptr" where
  "dynamic_pointer_cast_Circle (Ptr a (Circle_obj c)) = Ptr a c"
| "dynamic_pointer_cast_Circle (Ptr a (Ellipse_obj e)) = nullptr"
| "dynamic_pointer_cast_Circle (Ptr a (Helix_obj h)) = nullptr"
| "dynamic_pointer_cast_Circle nullptr = nullptr"

text \<open>
  The expression \<^verbatim>\<open>p->getRadius()\<close>; dereferencing the empty pointer has no defined
  behaviour and is the value \<open>None\<close>.
\<close>

fun arrow_getRadius :: "Circle shared_ptr \<Rightarrow> real option" where
  "arrow_getRadius nullptr = None"
| "arrow_getRadius (Ptr a c) = Some (getRadius c)"

subsection \<open>Step (4) of main: the circles of the first container\<close>

text \<open>
  The loop over \<^verbatim>\<open>curves\<close>; the first argument is the vector \<^verbatim>\<open>circles\<close> built so far,
  and \<^verbatim>\<open>push_back\<close> appends at its end.
\<close>

fun extract_circles_loop ::
  "Circle shared_ptr list \<Rightarrow> Curve shared_ptr list \<Rightarrow> Circle shared_ptr list" where
  "extract_circles_loop circles [] = circles"
| "extract_circles_loop circles (c # cs) =
     (let circle = dynamic_pointer_cast_Circle c
      in if circle \<noteq> nullptr then extract_circles_loop (circles @ [circle]) cs
         else extract_circles_loop circles cs)"

definition extract_circles :: "Curve shared_ptr list \<Rightarrow> Circle shared_ptr list" where
  "extract_circles curves = extract_circles_loop [] curves"

subsection \<open>Step (5) of main: the radius comparison and the contract of std::sort\<close>

text \<open>The lambda expression passed to \<^verbatim>\<open>std::sort\<close>.\<close>

definition radius_less :: "Circle shared_ptr \<Rightarrow> Circle shared_ptr \<Rightarrow> bool option" where
  "radius_less a b =
     (case arrow_getRadius a of
        None \<Rightarrow> None
      | Some ra \<Rightarrow> (case arrow_getRadius b of None \<Rightarrow> None | Some rb \<Rightarrow> Some (ra < rb)))"

text \<open>
  \<^verbatim>\<open>std::sort\<close> is library code; it is taken by its contract in the C++ standard. The
  comparison has to be defined on the elements and to induce a strict weak ordering on
  them: irreflexive, transitive, and with a transitive equivalence \<open>\<not> a < b \<and> \<not> b < a\<close>.
\<close>

definition strict_weak_ordering :: "('a \<Rightarrow> 'a \<Rightarrow> bool option) \<Rightarrow> 'a list \<Rightarrow> bool" where
  "strict_weak_ordering cmp xs \<longleftrightarrow>
     (\<forall>a\<in>set xs. \<forall>b\<in>set xs. cmp a b \<noteq> None) \<and>
     (\<forall>a\<in>set xs. cmp a a = Some False) \<and>
     (\<forall>a\<in>set xs. \<forall>b\<in>set xs. \<forall>c\<in>set xs.
        cmp a b = Some True \<longrightarrow> cmp b c = Some True \<longrightarrow> cmp a c = Some True) \<and>
     (\<forall>a\<in>set xs. \<forall>b\<in>set xs. \<forall>c\<in>set xs.
        cmp a b = Some False \<longrightarrow> cmp b a = Some False \<longrightarrow>
        cmp b c = Some False \<longrightarrow> cmp c b = Some False \<longrightarrow>
        cmp a c = Some False \<and> cmp c a = Some False)"

text \<open>
  A sequence is sorted with respect to \<open>cmp\<close> when no later element compares less than
  an earlier one.
\<close>

definition sorted_by :: "('a \<Rightarrow> 'a \<Rightarrow> bool option) \<Rightarrow> 'a list \<Rightarrow> bool" where
  "sorted_by cmp ys = sorted_wrt (\<lambda>a b. cmp b a = Some False) ys"

text \<open>
  \<open>std_sort cmp xs out\<close>: \<open>out\<close> is a possible outcome of \<^verbatim>\<open>std::sort\<close> on the
  sequence \<open>xs\<close>. Under the precondition the outcome is \<open>Some ys\<close>, where \<open>ys\<close> is the new
  content of the range: a rearrangement of \<open>xs\<close> that is sorted with respect to \<open>cmp\<close>. The
  standard fixes nothing more; in particular it leaves the relative order of
  equivalent elements open (that is the guarantee of \<^verbatim>\<open>std::stable_sort\<close>). Without the
  precondition the behaviour is undefined: the outcome \<open>None\<close>.
\<close>

definition std_sort :: "('a \<Rightarrow> 'a \<Rightarrow> bool option) \<Rightarrow> 'a list \<Rightarrow> 'a list option \<Rightarrow> bool" where
  "std_sort cmp xs out =
     (case out of
        None \<Rightarrow> \<not> strict_weak_ordering cmp xs
      | Some ys \<Rightarrow> strict_weak_ordering cmp xs \<and> mset ys = mset xs \<and> sorted_by cmp ys)"

subsection \<open>Step (5) of main: std::sort as the GNU library implements it\<close>

text \<open>
  The contract leaves open which sorted rearrangement the call returns; that is decided by
  the library. This is the algorithm of \<^verbatim>\<open>std::sort\<close> in the GNU C++ library (libstdc++,
  \<^verbatim>\<open>bits/stl_algo.h\<close>, functions \<^verbatim>\<open>__sort\<close>, \<^verbatim>\<open>__introsort_loop\<close>,
  \<^verbatim>\<open>__unguarded_partition_pivot\<close>, \<^verbatim>\<open>__move_median_to_first\<close>, \<^verbatim>\<open>__unguarded_partition\<close>,
  \<^verbatim>\<open>__final_insertion_sort\<close>, \<^verbatim>\<open>__insertion_sort\<close>, \<^verbatim>\<open>__unguarded_insertion_sort\<close> and
  \<^verbatim>\<open>__unguarded_linear_insert\<close>): quicksort with a median-of-three pivot down to ranges of
  16 elements, then one insertion sort over the whole range. The range is a list, an
  iterator an index into it; \<open>lt\<close> is the comparison, \<open>last'\<close> the iterator \<^verbatim>\<open>__last\<close> and
  \<open>cut'\<close> the iterator \<^verbatim>\<open>__cut\<close>.

  The unguarded loops of the library rely on an element that stops them; where they would
  leave the range the behaviour is undefined (\<open>Undefined\<close>). When the recursion depth
  \<open>2 * lg n\<close> is used up the library switches to a heap sort, which is not part of this
  model (\<open>Heap_sort\<close>); no range of at most 16 elements gets there.
\<close>

datatype stop = Undefined | Heap_sort

text \<open>\<^verbatim>\<open>std::__lg\<close>: the position of the highest set bit.\<close>

definition lg :: "nat \<Rightarrow> nat" where
  "lg n = floorlog 2 n - 1"

definition iter_swap :: "nat \<Rightarrow> nat \<Rightarrow> 'a list \<Rightarrow> 'a list" where
  "iter_swap i j a = a[i := a ! j, j := a ! i]"

definition move_median_to_first ::
  "('a \<Rightarrow> 'a \<Rightarrow> bool) \<Rightarrow> nat \<Rightarrow> nat \<Rightarrow> nat \<Rightarrow> nat \<Rightarrow> 'a list \<Rightarrow> 'a list" where
  "move_median_to_first lt result ia ib ic a =
     (if lt (a ! ia) (a ! ib) then
        (if lt (a ! ib) (a ! ic) then iter_swap result ib a
         else if lt (a ! ia) (a ! ic) then iter_swap result ic a
         else iter_swap result ia a)
      else if lt (a ! ia) (a ! ic) then iter_swap result ia a
      else if lt (a ! ib) (a ! ic) then iter_swap result ic a
      else iter_swap result ib a)"

text \<open>
  \<^verbatim>\<open>__unguarded_partition\<close>; \<open>scan_up\<close> is its loop \<^verbatim>\<open>while (comp(first, pivot)) ++first\<close>
  and \<open>scan_down\<close> its loop \<^verbatim>\<open>while (comp(pivot, last)) --last\<close>. The pivot is the first
  element of the range that is being partitioned and lies outside the part that is scanned.
\<close>

function scan_up :: "('a \<Rightarrow> 'a \<Rightarrow> bool) \<Rightarrow> 'a \<Rightarrow> 'a list \<Rightarrow> nat \<Rightarrow> stop + nat" where
  "scan_up lt pivot a first =
     (if length a \<le> first then Inl Undefined
      else if lt (a ! first) pivot then scan_up lt pivot a (Suc first)
      else Inr first)"
  by pat_completeness auto
termination
  by (relation "measure (\<lambda>(lt, pivot, a, first). length a - first)") auto

fun scan_down :: "('a \<Rightarrow> 'a \<Rightarrow> bool) \<Rightarrow> 'a \<Rightarrow> 'a list \<Rightarrow> nat \<Rightarrow> stop + nat" where
  "scan_down lt pivot a 0 =
     (if length a \<le> 0 \<or> lt pivot (a ! 0) then Inl Undefined else Inr 0)"
| "scan_down lt pivot a (Suc last') =
     (if length a \<le> Suc last' then Inl Undefined
      else if lt pivot (a ! Suc last') then scan_down lt pivot a last'
      else Inr (Suc last'))"

function unguarded_partition ::
  "('a \<Rightarrow> 'a \<Rightarrow> bool) \<Rightarrow> 'a \<Rightarrow> 'a list \<Rightarrow> nat \<Rightarrow> nat \<Rightarrow> stop + nat \<times> 'a list" where
  "unguarded_partition lt pivot a first last' =
     (case scan_up lt pivot a first of
        Inl e \<Rightarrow> Inl e
      | Inr i \<Rightarrow>
          (case last' of
             0 \<Rightarrow> Inl Undefined
           | Suc l \<Rightarrow>
               (case scan_down lt pivot a l of
                  Inl e \<Rightarrow> Inl e
                | Inr j \<Rightarrow>
                    if i < j then unguarded_partition lt pivot (iter_swap i j a) (Suc i) j
                    else Inr (i, a))))"
  by pat_completeness auto
termination
proof -
  have le: "j \<le> l" if "scan_down lt pivot a l = Inr j"
    for lt :: "'a \<Rightarrow> 'a \<Rightarrow> bool" and pivot a l j
    using that by (induction l) (auto split: if_splits)
  show ?thesis
    by (relation "measure (\<lambda>(lt, pivot, a, first, last'). last')") (auto dest: le)
qed

text \<open>
  \<^verbatim>\<open>__introsort_loop\<close>, with \<^verbatim>\<open>__unguarded_partition_pivot\<close> unfolded; the second call is the
  next round of the \<^verbatim>\<open>while\<close> loop, with \<^verbatim>\<open>__last = __cut\<close>.
\<close>

fun introsort_loop ::
  "('a \<Rightarrow> 'a \<Rightarrow> bool) \<Rightarrow> nat \<Rightarrow> 'a list \<Rightarrow> nat \<Rightarrow> nat \<Rightarrow> stop + 'a list" where
  "introsort_loop lt 0 a first last' = (if 16 < last' - first then Inl Heap_sort else Inr a)"
| "introsort_loop lt (Suc depth_limit) a first last' =
     (if 16 < last' - first then
        (let mid = first + (last' - first) div 2;
             a1 = move_median_to_first lt first (first + 1) mid (last' - 1) a
         in case unguarded_partition lt (a1 ! first) a1 (first + 1) last' of
              Inl e \<Rightarrow> Inl e
            | Inr (cut', a2) \<Rightarrow>
                (case introsort_loop lt depth_limit a2 cut' last' of
                   Inl e \<Rightarrow> Inl e
                 | Inr a3 \<Rightarrow> introsort_loop lt depth_limit a3 first cut'))
      else Inr a)"

text \<open>
  \<^verbatim>\<open>__unguarded_linear_insert\<close>: the value \<open>val\<close> taken from position \<open>Suc next\<close> moves down
  past every element that it is less than.
\<close>

fun unguarded_linear_insert ::
  "('a \<Rightarrow> 'a \<Rightarrow> bool) \<Rightarrow> 'a \<Rightarrow> nat \<Rightarrow> 'a list \<Rightarrow> stop + 'a list" where
  "unguarded_linear_insert lt val 0 a = Inl Undefined"
| "unguarded_linear_insert lt val (Suc next) a =
     (if lt val (a ! next) then unguarded_linear_insert lt val next (a[Suc next := a ! next])
      else Inr (a[Suc next := val]))"

text \<open>A \<^verbatim>\<open>for\<close> loop over the positions \<open>js\<close> that stops at the first failure.\<close>

fun for_each ::
  "(nat \<Rightarrow> 'a list \<Rightarrow> stop + 'a list) \<Rightarrow> nat list \<Rightarrow> 'a list \<Rightarrow> stop + 'a list" where
  "for_each body [] a = Inr a"
| "for_each body (i # js) a =
     (case body i a of Inl e \<Rightarrow> Inl e | Inr a' \<Rightarrow> for_each body js a')"

text \<open>
  One round of \<^verbatim>\<open>__insertion_sort\<close>: an element less than the first one is moved to the
  front (\<^verbatim>\<open>move_backward\<close> shifts the elements before it up by one), any other is inserted
  by \<open>unguarded_linear_insert\<close>.
\<close>

definition insertion_step ::
  "('a \<Rightarrow> 'a \<Rightarrow> bool) \<Rightarrow> nat \<Rightarrow> nat \<Rightarrow> 'a list \<Rightarrow> stop + 'a list" where
  "insertion_step lt first i a =
     (if lt (a ! i) (a ! first)
      then Inr (take first a @ a ! i # take (i - first) (drop first a) @ drop (Suc i) a)
      else unguarded_linear_insert lt (a ! i) i a)"

definition insertion_sort ::
  "('a \<Rightarrow> 'a \<Rightarrow> bool) \<Rightarrow> nat \<Rightarrow> nat \<Rightarrow> 'a list \<Rightarrow> stop + 'a list" where
  "insertion_sort lt first last' a =
     (if first = last' then Inr a else for_each (insertion_step lt first) [Suc first..<last'] a)"

definition unguarded_insertion_sort ::
  "('a \<Rightarrow> 'a \<Rightarrow> bool) \<Rightarrow> nat \<Rightarrow> nat \<Rightarrow> 'a list \<Rightarrow> stop + 'a list" where
  "unguarded_insertion_sort lt first last' a =
     for_each (\<lambda>i a. unguarded_linear_insert lt (a ! i) i a) [first..<last'] a"

definition final_insertion_sort ::
  "('a \<Rightarrow> 'a \<Rightarrow> bool) \<Rightarrow> nat \<Rightarrow> nat \<Rightarrow> 'a list \<Rightarrow> stop + 'a list" where
  "final_insertion_sort lt first last' a =
     (if 16 < last' - first then
        (case insertion_sort lt first (first + 16) a of
           Inl e \<Rightarrow> Inl e
         | Inr a1 \<Rightarrow> unguarded_insertion_sort lt (first + 16) last' a1)
      else insertion_sort lt first last' a)"

definition libstdcxx_sort :: "('a \<Rightarrow> 'a \<Rightarrow> bool) \<Rightarrow> 'a list \<Rightarrow> stop + 'a list" where
  "libstdcxx_sort lt a =
     (if a = [] then Inr a
      else case introsort_loop lt (lg (length a) * 2) a 0 (length a) of
             Inl e \<Rightarrow> Inl e
           | Inr a1 \<Rightarrow> final_insertion_sort lt 0 (length a1) a1)"

text \<open>
  The call of step (5). The comparison dereferences both pointers, and every element of a
  range of two or more elements is compared at least once.
\<close>

definition sort_by_radius :: "Circle shared_ptr list \<Rightarrow> stop + Circle shared_ptr list" where
  "sort_by_radius circles =
     (if nullptr \<in> set circles \<and> 2 \<le> length circles then Inl Undefined
      else libstdcxx_sort (\<lambda>a b. radius_less a b = Some True) circles)"

subsection \<open>Step (6) of main: the sum of the radii\<close>

text \<open>The loop over \<^verbatim>\<open>circles\<close>; the first argument \<open>acc\<close> is the variable \<^verbatim>\<open>sum\<close>.\<close>

fun sum_loop :: "real \<Rightarrow> Circle shared_ptr list \<Rightarrow> real option" where
  "sum_loop acc [] = Some acc"
| "sum_loop acc (c # cs) =
     (case arrow_getRadius c of None \<Rightarrow> None | Some rc \<Rightarrow> sum_loop (acc + rc) cs)"

definition sum_of_radii :: "Circle shared_ptr list \<Rightarrow> real option" where
  "sum_of_radii circles = sum_loop 0 circles"

subsection \<open>Notions used to state the properties\<close>

text \<open>The dynamic type of the object behind a pointer is \<^verbatim>\<open>Circle\<close>.\<close>

fun is_Circle :: "Curve shared_ptr \<Rightarrow> bool" where
  "is_Circle (Ptr a (Circle_obj c)) = True"
| "is_Circle (Ptr a (Ellipse_obj e)) = False"
| "is_Circle (Ptr a (Helix_obj h)) = False"
| "is_Circle nullptr = False"

text \<open>The conversion of a \<^verbatim>\<open>Circle\<close> pointer to a \<^verbatim>\<open>Curve\<close> pointer: same object.\<close>

fun upcast :: "Circle shared_ptr \<Rightarrow> Curve shared_ptr" where
  "upcast nullptr = nullptr"
| "upcast (Ptr a c) = Ptr a (Circle_obj c)"

text \<open>The radii of a sequence of circles, in order.\<close>

definition radii :: "Circle shared_ptr list \<Rightarrow> real list" where
  "radii circles = List.map_filter arrow_getRadius circles"

definition dot :: "Vec3 \<Rightarrow> Vec3 \<Rightarrow> real" where
  "dot u v = x u * x v + y u * y v + z u * z v"

definition norm3 :: "Vec3 \<Rightarrow> real" where
  "norm3 v = sqrt (dot v v)"

subsection \<open>Double arithmetic\<close>

text \<open>
  The finite values of IEEE binary64 are the rationals \<open>m * 2 ^ e\<close> with \<open>\<bar>m\<bar> < 2 ^ 53\<close>
  and \<open>- 1074 \<le> e\<close>; an arithmetic operation returns its exact result rounded to the
  nearest of them, a tie going to the even \<open>m\<close>. \<open>b64\<close> is that rounding. Values beyond
  the largest finite double (about \<open>1.8 * 10 ^ 308\<close>), where the machine returns an
  infinity, are outside this model.
\<close>

text \<open>For \<open>a > 0\<close>, the integer \<open>e\<close> with \<open>2 ^ e \<le> a < 2 ^ (e + 1)\<close>.\<close>

definition ilog2 :: "real \<Rightarrow> int" where
  "ilog2 a = (if 1 \<le> a then bitlen \<lfloor>a\<rfloor> - 1 else - bitlen (\<lceil>1 / a\<rceil> - 1))"

definition round_ties_even :: "real \<Rightarrow> int" where
  "round_ties_even a =
     (let f = \<lfloor>a\<rfloor>; d = a - of_int f
      in if d < 1 / 2 then f else if 1 / 2 < d then f + 1 else if even f then f else f + 1)"

definition b64 :: "real \<Rightarrow> real" where
  "b64 a =
     (if a = 0 then 0
      else let q = 2 powi (max (ilog2 \<bar>a\<bar>) (- 1022) - 52)
           in of_int (round_ties_even (a / q)) * q)"

text \<open>
  The macro \<^verbatim>\<open>M_PI\<close> is the literal \<^verbatim>\<open>3.14159265358979323846\<close>, which the compiler
  converts to the nearest double.
\<close>

definition M_PI_b64 :: real where
  "M_PI_b64 = b64 (314159265358979323846 / 10 ^ 20)"

text \<open>
  The third component of \<^verbatim>\<open>Helix::getPoint\<close>, \<^verbatim>\<open>step * t / (2 * M_PI)\<close>, and the loop of
  step (6), with every operation rounded.
\<close>

definition Helix_getPoint_z_b64 :: "Helix \<Rightarrow> real \<Rightarrow> real" where
  "Helix_getPoint_z_b64 h t = b64 (b64 (Helix.step h * t) / b64 (2 * M_PI_b64))"

fun sum_loop_b64 :: "real \<Rightarrow> Circle shared_ptr list \<Rightarrow> real option" where
  "sum_loop_b64 acc [] = Some acc"
| "sum_loop_b64 acc (c # cs) =
     (case arrow_getRadius c of None \<Rightarrow> None | Some rc \<Rightarrow> sum_loop_b64 (b64 (acc + rc)) cs)"

definition sum_of_radii_b64 :: "Circle shared_ptr list \<Rightarrow> real option" where
  "sum_of_radii_b64 circles = sum_loop_b64 0 circles"

section \<open>Auxiliary facts\<close>

subsection \<open>The loop of step (4)\<close>

lemma extract_circles_loop_append:
  "extract_circles_loop circles cs = circles @ extract_circles_loop [] cs"
proof (induction cs arbitrary: circles)
  case Nil
  show ?case by simp
next
  case (Cons c cs)
  show ?case
    using Cons.IH [of "circles @ [dynamic_pointer_cast_Circle c]"]
      Cons.IH [of "[dynamic_pointer_cast_Circle c]"] Cons.IH [of circles]
    by (simp add: Let_def)
qed

lemma extract_circles_Nil: "extract_circles [] = []"
  by (simp add: extract_circles_def)

lemma extract_circles_Cons:
  "extract_circles (c # cs) =
     (if dynamic_pointer_cast_Circle c \<noteq> nullptr
      then dynamic_pointer_cast_Circle c # extract_circles cs else extract_circles cs)"
  using extract_circles_loop_append [of "[dynamic_pointer_cast_Circle c]" cs]
  by (simp add: extract_circles_def Let_def)

lemma upcast_cast: "is_Circle c \<Longrightarrow> upcast (dynamic_pointer_cast_Circle c) = c"
  by (induction c rule: is_Circle.induct) simp_all

lemma cast_nullptr_iff: "dynamic_pointer_cast_Circle c \<noteq> nullptr \<longleftrightarrow> is_Circle c"
  by (induction c rule: is_Circle.induct) simp_all

lemma map_upcast_extract_circles:
  "map upcast (extract_circles curves) = filter is_Circle curves"
  by (induction curves)
    (simp_all add: extract_circles_Nil extract_circles_Cons cast_nullptr_iff upcast_cast)

lemma extract_circles_no_nullptr: "nullptr \<notin> set (extract_circles curves)"
  by (induction curves) (simp_all add: extract_circles_Nil extract_circles_Cons)

subsection \<open>The comparison and the contract of std::sort\<close>

lemma arrow_getRadius_Some: "p \<noteq> nullptr \<Longrightarrow> \<exists>rp. arrow_getRadius p = Some rp"
  by (cases p) simp_all

lemma radius_less_Some:
  "arrow_getRadius a = Some ra \<Longrightarrow> arrow_getRadius b = Some rb
     \<Longrightarrow> radius_less a b = Some (ra < rb)"
  by (simp add: radius_less_def)

lemma strict_weak_ordering_radius_less:
  assumes "nullptr \<notin> set xs"
  shows "strict_weak_ordering radius_less xs"
proof -
  have some: "\<exists>rp. arrow_getRadius p = Some rp" if "p \<in> set xs" for p
    using that assms arrow_getRadius_Some [of p] by auto
  show ?thesis
    unfolding strict_weak_ordering_def
  proof (intro conjI ballI impI)
    fix a b assume "a \<in> set xs" "b \<in> set xs"
    then show "radius_less a b \<noteq> None"
      using some [of a] some [of b] by (auto simp: radius_less_def)
  next
    fix a assume "a \<in> set xs"
    then show "radius_less a a = Some False"
      using some [of a] by (auto simp: radius_less_def)
  next
    fix a b c assume "a \<in> set xs" "b \<in> set xs" "c \<in> set xs"
      and "radius_less a b = Some True" "radius_less b c = Some True"
    then show "radius_less a c = Some True"
      using some [of a] some [of b] some [of c] by (auto simp: radius_less_def)
  next
    fix a b c assume "a \<in> set xs" "b \<in> set xs" "c \<in> set xs"
      and "radius_less a b = Some False" "radius_less b a = Some False"
      and "radius_less b c = Some False" "radius_less c b = Some False"
    then show "radius_less a c = Some False" "radius_less c a = Some False"
      using some [of a] some [of b] some [of c] by (auto simp: radius_less_def)
  qed
qed

lemma radii_Nil: "radii [] = []"
  by (simp add: radii_def map_filter_simps)

lemma radii_Cons:
  "radii (p # ps) = (case arrow_getRadius p of None \<Rightarrow> radii ps | Some rp \<Rightarrow> rp # radii ps)"
  by (cases "arrow_getRadius p") (simp_all add: radii_def map_filter_simps)

lemma length_radii: "nullptr \<notin> set ps \<Longrightarrow> length (radii ps) = length ps"
proof (induction ps)
  case Nil
  show ?case by (simp add: radii_Nil)
next
  case (Cons p ps)
  then show ?case
    using arrow_getRadius_Some [of p] by (auto simp: radii_Cons)
qed

lemma mset_radii: "mset ys = mset xs \<Longrightarrow> mset (radii ys) = mset (radii xs)"
  by (simp add: radii_def map_filter_def)

lemma set_radii: "set (radii ps) = {rp. \<exists>p\<in>set ps. arrow_getRadius p = Some rp}"
  by (induction ps) (auto simp: radii_Nil radii_Cons split: option.splits)

lemma sorted_by_radii:
  "nullptr \<notin> set ys \<Longrightarrow> sorted_by radius_less ys \<Longrightarrow> sorted (radii ys)"
proof (induction ys)
  case Nil
  show ?case by (simp add: radii_Nil)
next
  case (Cons p ps)
  from Cons.prems obtain rp where rp: "arrow_getRadius p = Some rp"
    using arrow_getRadius_Some [of p] by auto
  have tail: "sorted (radii ps)"
    using Cons by (simp add: sorted_by_def)
  have "rp \<le> rq" if "rq \<in> set (radii ps)" for rq
  proof -
    from that obtain q where q: "q \<in> set ps" "arrow_getRadius q = Some rq"
      by (auto simp: set_radii)
    with Cons.prems have "radius_less q p = Some False"
      by (simp add: sorted_by_def)
    with q rp show ?thesis
      by (simp add: radius_less_def)
  qed
  with tail rp show ?case
    by (simp add: radii_Cons)
qed

lemma std_sort_outcome:
  assumes "nullptr \<notin> set xs" and "std_sort radius_less xs out"
  shows "\<exists>ys. out = Some ys \<and> mset ys = mset xs \<and> nullptr \<notin> set ys
           \<and> sorted (radii ys) \<and> radii ys = sort (radii xs)"
proof (cases out)
  case None
  with assms show ?thesis
    using strict_weak_ordering_radius_less [of xs] by (simp add: std_sort_def)
next
  case (Some ys)
  with assms have m: "mset ys = mset xs" and s: "sorted_by radius_less ys"
    by (simp_all add: std_sort_def)
  from m have "set ys = set xs"
    by (rule mset_eq_setD)
  with assms have n: "nullptr \<notin> set ys"
    by simp
  have sr: "sorted (radii ys)"
    using n s by (rule sorted_by_radii)
  have "sort (radii xs) = radii ys"
    using mset_radii [OF m] sr by (rule properties_for_sort)
  with Some m n sr show ?thesis
    by simp
qed

lemma std_sort_returns:
  assumes "nullptr \<notin> set xs"
  shows "\<exists>ys. std_sort radius_less xs (Some ys)"
proof -
  define key where "key p = (case arrow_getRadius p of None \<Rightarrow> 0 | Some rp \<Rightarrow> rp)" for p
  define ys where "ys = sort_key key xs"
  have m: "mset ys = mset xs"
    by (simp add: ys_def)
  have "sorted (map key ys)"
    by (simp add: ys_def)
  then have k: "sorted_wrt (\<lambda>a b. key a \<le> key b) ys"
    by (simp add: sorted_map)
  have "sorted_wrt (\<lambda>a b. radius_less b a = Some False) ys"
  proof (rule sorted_wrt_mono_rel [OF _ k])
    fix a b assume ab: "a \<in> set ys" "b \<in> set ys" and le: "key a \<le> key b"
    have "set ys = set xs"
      by (simp add: ys_def)
    with ab assms have "a \<noteq> nullptr" "b \<noteq> nullptr"
      by auto
    then obtain ra rb where "arrow_getRadius a = Some ra" "arrow_getRadius b = Some rb"
      using arrow_getRadius_Some [of a] arrow_getRadius_Some [of b] by auto
    with le show "radius_less b a = Some False"
      by (simp add: radius_less_def key_def)
  qed
  then have "std_sort radius_less xs (Some ys)"
    using m strict_weak_ordering_radius_less [OF assms] by (simp add: std_sort_def sorted_by_def)
  then show ?thesis ..
qed

lemma radii_eq_imp_eq:
  assumes n: "nullptr \<notin> set ys" and m1: "mset ys = mset xs" and m2: "mset zs = mset xs"
    and d: "distinct (radii xs)" and e: "radii ys = radii zs"
  shows "ys = zs"
proof -
  define key where "key p = (case arrow_getRadius p of None \<Rightarrow> 0 | Some rp \<Rightarrow> rp)" for p
  have s: "set ys = set xs" "set zs = set xs"
    using m1 m2 by (auto dest: mset_eq_setD)
  have r: "radii ps = map key ps" if "nullptr \<notin> set ps" for ps
    using that
  proof (induction ps)
    case Nil
    show ?case by (simp add: radii_Nil)
  next
    case (Cons p ps)
    then show ?case
      using arrow_getRadius_Some [of p] by (auto simp: radii_Cons key_def)
  qed
  have nx: "nullptr \<notin> set xs" and nz: "nullptr \<notin> set zs"
    using n s by simp_all
  have "distinct (map key xs)"
    using d r [OF nx] by simp
  then have "inj_on key (set xs)"
    by (simp add: distinct_map)
  then have "inj_on key (set ys \<union> set zs)"
    using s by simp
  moreover have "map key ys = map key zs"
    using e r [OF n] r [OF nz] by simp
  ultimately show ?thesis
    by (simp add: inj_on_map_eq_map)
qed

lemma std_sort_unique:
  assumes "nullptr \<notin> set xs" and "distinct (radii xs)"
    and "std_sort radius_less xs (Some ys)" and "std_sort radius_less xs (Some zs)"
  shows "ys = zs"
proof -
  from std_sort_outcome [OF assms(1,3)]
  have y: "mset ys = mset xs" "nullptr \<notin> set ys" "radii ys = sort (radii xs)"
    by simp_all
  from std_sort_outcome [OF assms(1,4)]
  have z: "mset zs = mset xs" "radii zs = sort (radii xs)"
    by simp_all
  show ?thesis
    using y(2,1) z(1) assms(2) by (rule radii_eq_imp_eq) (simp add: y(3) z(2))
qed

subsection \<open>The GNU sort on ranges of at most 16 elements\<close>

text \<open>
  On such a range only the insertion sort runs, and it is stable: elements with equal
  keys keep their relative order.
\<close>

lemma unguarded_linear_insert_list:
  "dropWhile (lt v) (rev pre) \<noteq> [] \<Longrightarrow>
   unguarded_linear_insert lt v (length pre) (pre @ h # post)
     = Inr (rev (dropWhile (lt v) (rev pre)) @ v # rev (takeWhile (lt v) (rev pre)) @ post)"
proof (induction pre arbitrary: h post rule: rev_induct)
  case Nil
  then show ?case by simp
next
  case (snoc e ps)
  show ?case
  proof (cases "lt v e")
    case True
    with snoc.prems have d: "dropWhile (lt v) (rev ps) \<noteq> []"
      by simp
    have upd: "(ps @ [e] @ h # post)[Suc (length ps) := e] = ps @ e # e # post"
      by (simp add: list_update_append)
    have "unguarded_linear_insert lt v (length (ps @ [e])) ((ps @ [e]) @ h # post)
            = unguarded_linear_insert lt v (length ps) (ps @ e # e # post)"
      using True upd by (simp add: nth_append)
    also have "\<dots> = Inr (rev (dropWhile (lt v) (rev ps)) @ v
                          # rev (takeWhile (lt v) (rev ps)) @ e # post)"
      using d snoc.IH [of e "e # post"] by simp
    finally show ?thesis
      using True by simp
  next
    case False
    have upd: "(ps @ [e] @ h # post)[Suc (length ps) := v] = ps @ e # v # post"
      by (simp add: list_update_append)
    show ?thesis
      using False upd by (simp add: nth_append)
  qed
qed

lemma for_each_append:
  "for_each body (js @ ks) a =
     (case for_each body js a of Inl e \<Rightarrow> Inl e | Inr a' \<Rightarrow> for_each body ks a')"
  by (induction js arbitrary: a) (simp_all split: sum.splits)

lemma insertion_step_stable:
  fixes f :: "'a \<Rightarrow> real"
  assumes key: "\<And>p q. p \<in> set (v # s) \<Longrightarrow> q \<in> set (v # s) \<Longrightarrow> lt p q = (f p < f q)"
    and s: "s \<noteq> []" "sorted (map f s)"
  shows "\<exists>s'. insertion_step lt 0 (length s) (s @ v # post) = Inr (s' @ post)
           \<and> mset s' = mset (s @ [v]) \<and> sorted (map f s')
           \<and> (\<forall>k. filter (\<lambda>p. f p = k) s' = filter (\<lambda>p. f p = k) (s @ [v]))"
proof (cases "lt v (s ! 0)")
  case True
  have hd: "s ! 0 \<in> set s"
    using s(1) by simp
  have all: "f v < f p" if "p \<in> set s" for p
  proof -
    have "f (s ! 0) \<le> f p"
      using s that by (cases s) auto
    moreover have "f v < f (s ! 0)"
      using True key [of v "s ! 0"] hd by simp
    ultimately show ?thesis by simp
  qed
  have "insertion_step lt 0 (length s) (s @ v # post) = Inr ((v # s) @ post)"
    using True s(1) by (simp add: insertion_step_def nth_append)
  moreover have "sorted (map f (v # s))"
    using s(2) all by (auto simp: less_imp_le)
  moreover have "filter (\<lambda>p. f p = k) (v # s) = filter (\<lambda>p. f p = k) (s @ [v])" for k
  proof (cases "f v = k")
    case True
    then have "filter (\<lambda>p. f p = k) s = []"
      by (force simp: filter_empty_conv dest: all)
    with True show ?thesis by simp
  next
    case False
    then show ?thesis by simp
  qed
  ultimately show ?thesis
    by (intro exI [of _ "v # s"]) simp
next
  case False
  define D where "D = rev (dropWhile (lt v) (rev s))"
  define T where "T = rev (takeWhile (lt v) (rev s))"
  have split: "s = D @ T"
    unfolding D_def T_def by (metis rev_append rev_rev_ident takeWhile_dropWhile_id)
  have hd: "s ! 0 \<in> set s"
    using s(1) by simp
  then have "\<not> (\<forall>p\<in>set (rev s). lt v p)"
    using False by auto
  then have ne: "dropWhile (lt v) (rev s) \<noteq> []"
    by (simp add: dropWhile_eq_Nil_conv)
  have step: "insertion_step lt 0 (length s) (s @ v # post) = Inr ((D @ v # T) @ post)"
    using False s(1) ne unguarded_linear_insert_list [of lt v s v post]
    by (simp add: insertion_step_def nth_append D_def T_def)
  have T_gt: "f v < f p" if "p \<in> set T" for p
  proof -
    from that have "p \<in> set (takeWhile (lt v) (rev s))"
      by (simp add: T_def)
    then have "lt v p" "p \<in> set s"
      by (auto dest: set_takeWhileD)
    then show ?thesis
      using key [of v p] by simp
  qed
  have D_last: "\<not> lt v (last D)" and D_ne: "D \<noteq> []"
  proof -
    show "D \<noteq> []"
      using ne by (simp add: D_def)
    have "hd (dropWhile (lt v) (rev s)) = last D"
      using ne by (simp add: D_def last_rev)
    then show "\<not> lt v (last D)"
      using ne hd_dropWhile [of "lt v" "rev s"] by auto
  qed
  have D_le: "f p \<le> f v" if "p \<in> set D" for p
  proof -
    have "sorted (map f (butlast D @ [last D]))"
      using s(2) split D_ne by (simp add: sorted_append)
    moreover have "p \<in> set (butlast D @ [last D])"
      using that D_ne by simp
    ultimately have "f p \<le> f (last D)"
      by (auto simp: sorted_append)
    moreover have "last D \<in> set s"
      using D_ne split by simp
    then have "f (last D) \<le> f v"
      using D_last key [of v "last D"] by simp
    ultimately show ?thesis by simp
  qed
  have m: "mset (D @ v # T) = mset (s @ [v])"
    by (simp add: split)
  have so: "sorted (map f (D @ v # T))"
    using s(2) D_le T_gt unfolding split
    by (auto simp: sorted_append less_imp_le)
  have st: "filter (\<lambda>p. f p = k) (D @ v # T) = filter (\<lambda>p. f p = k) (s @ [v])" for k
  proof (cases "f v = k")
    case True
    then have "filter (\<lambda>p. f p = k) T = []"
      by (force simp: filter_empty_conv dest: T_gt)
    with True show ?thesis by (simp add: split)
  next
    case False
    then show ?thesis by (simp add: split)
  qed
  show ?thesis
    using step m so st by blast
qed

lemma insertion_loop_stable:
  fixes f :: "'a \<Rightarrow> real"
  assumes key: "\<And>p q. p \<in> set xs \<Longrightarrow> q \<in> set xs \<Longrightarrow> lt p q = (f p < f q)"
  shows "0 < n \<Longrightarrow> n \<le> length xs \<Longrightarrow>
     \<exists>s. for_each (insertion_step lt 0) [Suc 0..<n] xs = Inr (s @ drop n xs)
        \<and> length s = n \<and> mset s = mset (take n xs) \<and> sorted (map f s)
        \<and> (\<forall>k. filter (\<lambda>p. f p = k) s = filter (\<lambda>p. f p = k) (take n xs))"
proof (induction n)
  case 0
  then show ?case by simp
next
  case (Suc n)
  show ?case
  proof (cases "n = 0")
    case True
    have "for_each (insertion_step lt 0) [Suc 0..<Suc n] xs = Inr (take 1 xs @ drop 1 xs)"
      using True by simp
    moreover have "length (take 1 xs) = Suc n"
      using True Suc.prems by simp
    moreover have "sorted (map f (take 1 xs))"
      by (cases xs) simp_all
    ultimately show ?thesis
      using True by (intro exI [of _ "take 1 xs"]) simp
  next
    case False
    with Suc obtain s where s: "for_each (insertion_step lt 0) [Suc 0..<n] xs = Inr (s @ drop n xs)"
      "length s = n" "mset s = mset (take n xs)" "sorted (map f s)"
      "\<And>k. filter (\<lambda>p. f p = k) s = filter (\<lambda>p. f p = k) (take n xs)"
      by auto
    have n: "n < length xs"
      using Suc.prems by simp
    have d: "drop n xs = xs ! n # drop (Suc n) xs"
      using n by (simp add: Cons_nth_drop_Suc)
    have t: "take (Suc n) xs = take n xs @ [xs ! n]"
      using n by (simp add: take_Suc_conv_app_nth)
    have sub: "set (xs ! n # s) \<subseteq> set xs"
    proof -
      have "set s = set (take n xs)"
        using s(3) by (rule mset_eq_setD)
      then show ?thesis
        using n by (auto dest: in_set_takeD)
    qed
    have ne: "s \<noteq> []"
      using s(2) False by auto
    from insertion_step_stable [of "xs ! n" s lt f, OF _ ne s(4), of "drop (Suc n) xs"]
    obtain s' where s': "insertion_step lt 0 (length s) (s @ xs ! n # drop (Suc n) xs)
          = Inr (s' @ drop (Suc n) xs)"
      "mset s' = mset (s @ [xs ! n])" "sorted (map f s')"
      "\<And>k. filter (\<lambda>p. f p = k) s' = filter (\<lambda>p. f p = k) (s @ [xs ! n])"
      using key sub by (meson subsetD)
    have "[Suc 0..<Suc n] = [Suc 0..<n] @ [n]"
      using False by simp
    then have "for_each (insertion_step lt 0) [Suc 0..<Suc n] xs = Inr (s' @ drop (Suc n) xs)"
      using s(1) s'(1) s(2) d by (simp add: for_each_append)
    moreover have "length s' = Suc n"
      using s'(2) s(2) by (metis length_append_singleton size_mset)
    moreover have "mset s' = mset (take (Suc n) xs)"
      using s'(2) s(3) t by simp
    moreover have "filter (\<lambda>p. f p = k) s' = filter (\<lambda>p. f p = k) (take (Suc n) xs)" for k
      using s'(4) [of k] s(5) [of k] t by simp
    ultimately show ?thesis
      using s'(3) by blast
  qed
qed

lemma introsort_loop_short:
  "last' - first \<le> 16 \<Longrightarrow> introsort_loop lt depth_limit a first last' = Inr a"
  by (cases depth_limit) simp_all

lemma libstdcxx_sort_short_stable:
  fixes f :: "'a \<Rightarrow> real"
  assumes key: "\<And>p q. p \<in> set xs \<Longrightarrow> q \<in> set xs \<Longrightarrow> lt p q = (f p < f q)"
    and len: "length xs \<le> 16"
  shows "\<exists>ys. libstdcxx_sort lt xs = Inr ys \<and> mset ys = mset xs \<and> sorted (map f ys)
           \<and> (\<forall>k. filter (\<lambda>p. f p = k) ys = filter (\<lambda>p. f p = k) xs)"
proof (cases "xs = []")
  case True
  then show ?thesis
    by (simp add: libstdcxx_sort_def)
next
  case False
  then have pos: "0 < length xs"
    by simp
  have "libstdcxx_sort lt xs = for_each (insertion_step lt 0) [Suc 0..<length xs] xs"
    using False len
    by (simp add: libstdcxx_sort_def introsort_loop_short final_insertion_sort_def
        insertion_sort_def)
  with insertion_loop_stable [of xs lt f "length xs", OF key pos] show ?thesis
    by auto
qed

lemma radii_map:
  "nullptr \<notin> set ps \<Longrightarrow>
     radii ps = map (\<lambda>p. case arrow_getRadius p of None \<Rightarrow> 0 | Some rp \<Rightarrow> rp) ps"
proof (induction ps)
  case Nil
  show ?case by (simp add: radii_Nil)
next
  case (Cons p ps)
  then show ?case
    using arrow_getRadius_Some [of p] by (auto simp: radii_Cons)
qed

lemma sorted_radii_sorted_by:
  assumes "nullptr \<notin> set ys" and "sorted (radii ys)"
  shows "sorted_by radius_less ys"
proof -
  define key where "key p = (case arrow_getRadius p of None \<Rightarrow> 0 | Some rp \<Rightarrow> rp)" for p
  have keyf: "key = (\<lambda>p. case arrow_getRadius p of None \<Rightarrow> 0 | Some rp \<Rightarrow> rp)"
    by (rule ext) (simp add: key_def)
  have "sorted (map key ys)"
    using assms radii_map [of ys] by (simp add: keyf)
  then have k: "sorted_wrt (\<lambda>a b. key a \<le> key b) ys"
    by (simp add: sorted_map)
  have "sorted_wrt (\<lambda>a b. radius_less b a = Some False) ys"
  proof (rule sorted_wrt_mono_rel [OF _ k])
    fix a b assume ab: "a \<in> set ys" "b \<in> set ys" and le: "key a \<le> key b"
    with assms have "a \<noteq> nullptr" "b \<noteq> nullptr"
      by auto
    then obtain ra rb where "arrow_getRadius a = Some ra" "arrow_getRadius b = Some rb"
      using arrow_getRadius_Some [of a] arrow_getRadius_Some [of b] by auto
    with le show "radius_less b a = Some False"
      by (simp add: radius_less_def key_def)
  qed
  then show ?thesis
    by (simp add: sorted_by_def)
qed

lemma length_extract_circles: "length (extract_circles curves) \<le> length curves"
  by (induction curves) (simp_all add: extract_circles_Nil extract_circles_Cons)

lemma sort_by_radius_short:
  assumes n: "nullptr \<notin> set xs" and len: "length xs \<le> 16"
  shows "\<exists>ys. sort_by_radius xs = Inr ys \<and> std_sort radius_less xs (Some ys)
           \<and> (\<forall>k. filter (\<lambda>p. arrow_getRadius p = Some k) ys
                  = filter (\<lambda>p. arrow_getRadius p = Some k) xs)"
proof -
  define key where "key p = (case arrow_getRadius p of None \<Rightarrow> 0 | Some rp \<Rightarrow> rp)" for p
  have some: "\<exists>rp. arrow_getRadius p = Some rp" if "p \<in> set xs" for p
    using that n arrow_getRadius_Some [of p] by auto
  have key: "(radius_less p q = Some True) = (key p < key q)"
    if "p \<in> set xs" "q \<in> set xs" for p q
    using some [OF that(1)] some [OF that(2)] by (auto simp: radius_less_def key_def)
  from libstdcxx_sort_short_stable [of xs "\<lambda>a b. radius_less a b = Some True" key, OF key len]
  obtain ys where ys: "libstdcxx_sort (\<lambda>a b. radius_less a b = Some True) xs = Inr ys"
    "mset ys = mset xs" "sorted (map key ys)"
    "\<And>k. filter (\<lambda>p. key p = k) ys = filter (\<lambda>p. key p = k) xs"
    by auto
  have s: "set ys = set xs"
    using ys(2) by (rule mset_eq_setD)
  with n have ny: "nullptr \<notin> set ys"
    by simp
  have 1: "sort_by_radius xs = Inr ys"
    using n ys(1) by (simp add: sort_by_radius_def)
  have keyf: "key = (\<lambda>p. case arrow_getRadius p of None \<Rightarrow> 0 | Some rp \<Rightarrow> rp)"
    by (rule ext) (simp add: key_def)
  have "sorted (radii ys)"
    using ys(3) radii_map [OF ny] by (simp add: keyf)
  then have "sorted_by radius_less ys"
    using ny by (intro sorted_radii_sorted_by)
  then have 2: "std_sort radius_less xs (Some ys)"
    using ys(2) strict_weak_ordering_radius_less [OF n] by (simp add: std_sort_def)
  have conv: "(arrow_getRadius p = Some k) = (key p = k)" if "p \<in> set xs" for p k
    using some [OF that] by (auto simp: key_def)
  have 3: "filter (\<lambda>p. arrow_getRadius p = Some k) ys
             = filter (\<lambda>p. arrow_getRadius p = Some k) xs" for k
  proof -
    have "filter (\<lambda>p. arrow_getRadius p = Some k) ys = filter (\<lambda>p. key p = k) ys"
      using conv s by (intro filter_cong) auto
    also have "\<dots> = filter (\<lambda>p. key p = k) xs"
      by (rule ys(4))
    also have "\<dots> = filter (\<lambda>p. arrow_getRadius p = Some k) xs"
      using conv by (intro filter_cong) auto
    finally show ?thesis .
  qed
  show ?thesis
    using 1 2 3 by blast
qed

subsection \<open>The loop of step (6)\<close>

lemma sum_loop_radii:
  "nullptr \<notin> set ps \<Longrightarrow> sum_loop acc ps = Some (acc + sum_list (radii ps))"
proof (induction ps arbitrary: acc)
  case Nil
  show ?case by (simp add: radii_Nil)
next
  case (Cons p ps)
  then show ?case
    using arrow_getRadius_Some [of p] by (auto simp: radii_Cons)
qed

lemma sum_loop_b64_radii:
  "nullptr \<notin> set ps \<Longrightarrow>
     sum_loop_b64 acc ps = Some (foldl (\<lambda>s rc. b64 (s + rc)) acc (radii ps))"
proof (induction ps arbitrary: acc)
  case Nil
  show ?case by (simp add: radii_Nil)
next
  case (Cons p ps)
  then show ?case
    using arrow_getRadius_Some [of p] by (auto simp: radii_Cons)
qed

lemma sum_list_radii_mset: "mset ys = mset xs \<Longrightarrow> sum_list (radii ys) = sum_list (radii xs)"
  using mset_radii [of ys xs] by (metis sum_mset_sum_list)

subsection \<open>Double arithmetic\<close>

text \<open>
  \<open>b64\<close> is rounding to nearest: it is within half a unit in the last place of its
  argument (the unit is \<open>2 ^ (e - 52)\<close> for an argument in \<open>[2 ^ e, 2 ^ (e + 1))\<close>, and
  \<open>2 ^ - 1074\<close> below \<open>2 ^ - 1022\<close>), it leaves every double as it is, and its value is a
  double (with \<open>\<bar>m\<bar> = 2 ^ 53\<close> when the rounding reaches the next power of two). Some known
  roundings follow, among them the double for \<open>0.1\<close> and ties in both directions.
\<close>

lemma ilog2_bounds:
  assumes "0 < a"
  shows "2 powi ilog2 a \<le> a \<and> a < 2 powi (ilog2 a + 1)"
proof (cases "1 \<le> a")
  case True
  define n where "n = \<lfloor>a\<rfloor>"
  have n1: "1 \<le> n"
    using True by (simp add: n_def le_floor_iff)
  then have b: "2 ^ nat (bitlen n - 1) \<le> n" "n < 2 ^ nat (bitlen n)"
    using bitlen_bounds [of n] by simp_all
  have k: "1 \<le> bitlen n"
    using n1 by (simp add: bitlen_def floorlog_def)
  have lo: "of_int n \<le> a" and hi: "a < of_int n + 1"
    by (simp_all add: n_def)
  have "(2::real) ^ nat (bitlen n - 1) \<le> of_int n"
    using b(1) by (metis of_int_le_iff of_int_numeral of_int_power)
  moreover have "of_int n + 1 \<le> (2::real) ^ nat (bitlen n)"
  proof -
    have "n + 1 \<le> 2 ^ nat (bitlen n)"
      using b(2) by simp
    then have "(of_int (n + 1) :: real) \<le> of_int (2 ^ nat (bitlen n))"
      by (simp only: of_int_le_iff)
    then show ?thesis by simp
  qed
  ultimately have "2 ^ nat (bitlen n - 1) \<le> a" "a < 2 ^ nat (bitlen n)"
    using lo hi by linarith+
  moreover have "ilog2 a = bitlen n - 1"
    using True by (simp add: ilog2_def n_def)
  ultimately show ?thesis
    using k by (simp add: power_int_def)
next
  case False
  define y where "y = 1 / a"
  define n where "n = \<lceil>y\<rceil> - 1"
  have y1: "1 < y"
    using False assms by (simp add: y_def)
  have n1: "1 \<le> n"
    using y1 by (simp add: n_def less_ceiling_iff)
  then have b: "2 ^ nat (bitlen n - 1) \<le> n" "n < 2 ^ nat (bitlen n)"
    using bitlen_bounds [of n] by simp_all
  have k: "1 \<le> bitlen n"
    using n1 by (simp add: bitlen_def floorlog_def)
  have lo: "of_int n < y" and hi: "y \<le> of_int n + 1"
    unfolding n_def by linarith+
  have "(2::real) ^ nat (bitlen n - 1) \<le> of_int n"
    using b(1) by (metis of_int_le_iff of_int_numeral of_int_power)
  moreover have "of_int n + 1 \<le> (2::real) ^ nat (bitlen n)"
  proof -
    have "n + 1 \<le> 2 ^ nat (bitlen n)"
      using b(2) by simp
    then have "(of_int (n + 1) :: real) \<le> of_int (2 ^ nat (bitlen n))"
      by (simp only: of_int_le_iff)
    then show ?thesis by simp
  qed
  ultimately have y_lo: "2 ^ nat (bitlen n - 1) < y" and y_hi: "y \<le> 2 ^ nat (bitlen n)"
    using lo hi by linarith+
  have a_eq: "a = 1 / y"
    using assms by (simp add: y_def)
  have "1 / 2 ^ nat (bitlen n) \<le> a"
    unfolding a_eq using y_hi y1 by (simp add: frac_le)
  moreover have "a < 1 / 2 ^ nat (bitlen n - 1)"
    unfolding a_eq using y_lo by (simp add: frac_less2)
  moreover have "ilog2 a = - bitlen n"
    using False by (simp add: ilog2_def n_def y_def)
  moreover have "(2::real) powi (- bitlen n) = 1 / 2 ^ nat (bitlen n)"
    using k by (simp add: power_int_def inverse_eq_divide power_one_over)
  moreover have "(2::real) powi (- bitlen n + 1) = 1 / 2 ^ nat (bitlen n - 1)"
  proof (cases "bitlen n = 1")
    case True
    then show ?thesis by simp
  next
    case False
    with k have "- bitlen n + 1 < 0" "nat (- (- bitlen n + 1)) = nat (bitlen n - 1)"
      by simp_all
    then show ?thesis
      by (simp add: power_int_def inverse_eq_divide power_one_over)
  qed
  ultimately show ?thesis
    by simp
qed

lemma round_ties_even_error: "\<bar>of_int (round_ties_even a) - a\<bar> \<le> 1 / 2"
proof -
  have "of_int \<lfloor>a\<rfloor> \<le> a" "a < of_int \<lfloor>a\<rfloor> + 1"
    by linarith+
  then show ?thesis
    by (auto simp add: round_ties_even_def Let_def)
qed

lemma round_ties_even_of_int: "round_ties_even (of_int n) = n"
  by (simp add: round_ties_even_def)

lemma b64_error: "\<bar>b64 a - a\<bar> \<le> 2 powi (max (ilog2 \<bar>a\<bar>) (- 1022) - 53)"
proof (cases "a = 0")
  case True
  then show ?thesis by (simp add: b64_def)
next
  case False
  define e where "e = max (ilog2 \<bar>a\<bar>) (- 1022) - 52"
  define q :: real where "q = 2 powi e"
  have q: "0 < q"
    by (simp add: q_def)
  have "b64 a - a = (of_int (round_ties_even (a / q)) - a / q) * q"
    using False q by (simp add: b64_def Let_def q_def e_def algebra_simps)
  then have "\<bar>b64 a - a\<bar> = \<bar>of_int (round_ties_even (a / q)) - a / q\<bar> * q"
    using q by (simp add: abs_mult)
  also have "\<dots> \<le> 1 / 2 * q"
    using round_ties_even_error [of "a / q"] q by (intro mult_right_mono) simp_all
  also have "\<dots> = 2 powi (e - 1)"
    by (simp add: q_def power_int_diff)
  finally show ?thesis
    by (simp add: e_def)
qed

lemma b64_of_double:
  assumes m: "\<bar>m\<bar> < 2 ^ 53" and e: "- 1074 \<le> e"
  shows "b64 (of_int m * 2 powi e) = of_int m * 2 powi e"
proof (cases "m = 0")
  case True
  then show ?thesis by (simp add: b64_def)
next
  case False
  define a :: real where "a = of_int m * 2 powi e"
  define E where "E = max (ilog2 \<bar>a\<bar>) (- 1022) - 52"
  have a0: "a \<noteq> 0"
    using False by (simp add: a_def)
  have abs_a: "\<bar>a\<bar> = of_int \<bar>m\<bar> * 2 powi e"
    by (simp add: a_def abs_mult)
  have "(of_int \<bar>m\<bar> :: real) < 2 ^ 53"
    using m by (metis of_int_less_iff of_int_numeral of_int_power)
  then have "\<bar>a\<bar> < 2 ^ 53 * 2 powi e"
    unfolding abs_a by (simp add: mult_strict_right_mono)
  also have "\<dots> = 2 powi (e + 53)"
    by (simp add: power_int_add)
  finally have up: "\<bar>a\<bar> < 2 powi (e + 53)" .
  have "2 powi ilog2 \<bar>a\<bar> \<le> \<bar>a\<bar>"
    using ilog2_bounds [of "\<bar>a\<bar>"] a0 by simp
  with up have "(2::real) powi ilog2 \<bar>a\<bar> < 2 powi (e + 53)"
    by linarith
  then have "ilog2 \<bar>a\<bar> < e + 53"
    using power_int_increasing [of "e + 53" "ilog2 \<bar>a\<bar>" "2::real"] by (cases "ilog2 \<bar>a\<bar> < e + 53") simp_all
  with e have le: "E \<le> e"
    by (simp add: E_def)
  define k where "k = nat (e - E)"
  have ek: "e = E + int k"
    using le by (simp add: k_def)
  have "a / 2 powi E = of_int m * 2 ^ k"
    unfolding a_def ek by (simp add: power_int_add)
  then have "a / 2 powi E = of_int (m * 2 ^ k)"
    by simp
  then have "round_ties_even (a / 2 powi E) = m * 2 ^ k"
    by (simp only: round_ties_even_of_int)
  then have "b64 a = of_int (m * 2 ^ k) * 2 powi E"
    using a0 by (simp add: b64_def Let_def E_def)
  also have "\<dots> = a"
    unfolding a_def ek by (simp add: power_int_add)
  finally show ?thesis
    by (simp add: a_def)
qed


lemma round_ties_even_bound:
  assumes "\<bar>a\<bar> \<le> of_int n"
  shows "\<bar>round_ties_even a\<bar> \<le> n"
proof -
  have f: "of_int \<lfloor>a\<rfloor> \<le> a" "a < of_int \<lfloor>a\<rfloor> + 1"
    by linarith+
  have lo: "- n \<le> \<lfloor>a\<rfloor>"
    using assms by (simp add: le_floor_iff)
  have hi: "\<lfloor>a\<rfloor> \<le> n"
    using assms f by (simp add: floor_le_iff)
  have "\<lfloor>a\<rfloor> < n \<or> a - of_int \<lfloor>a\<rfloor> = 0"
    using assms f hi by linarith
  then show ?thesis
  proof
    assume "\<lfloor>a\<rfloor> < n"
    with lo have "\<bar>\<lfloor>a\<rfloor>\<bar> \<le> n" "\<bar>\<lfloor>a\<rfloor> + 1\<bar> \<le> n"
      by linarith+
    then show ?thesis
      by (simp add: round_ties_even_def Let_def)
  next
    assume "a - of_int \<lfloor>a\<rfloor> = 0"
    moreover from lo hi have "\<bar>\<lfloor>a\<rfloor>\<bar> \<le> n"
      by linarith
    ultimately show ?thesis
      by (simp add: round_ties_even_def Let_def)
  qed
qed

lemma b64_is_double:
  "\<exists>m e. b64 a = of_int m * 2 powi e \<and> \<bar>m\<bar> \<le> 2 ^ 53 \<and> - 1074 \<le> e"
proof (cases "a = 0")
  case True
  have "b64 a = of_int 0 * 2 powi 0"
    using True by (simp add: b64_def)
  then show ?thesis
    by (intro exI [of _ 0]) simp
next
  case False
  define E where "E = max (ilog2 \<bar>a\<bar>) (- 1022) - 52"
  define m where "m = round_ties_even (a / 2 powi E)"
  have b: "b64 a = of_int m * 2 powi E"
    using False by (simp add: b64_def Let_def E_def m_def)
  have "\<bar>a\<bar> < 2 powi (ilog2 \<bar>a\<bar> + 1)"
    using ilog2_bounds [of "\<bar>a\<bar>"] False by simp
  also have "\<dots> \<le> 2 powi (E + 53)"
    by (intro power_int_increasing) (simp_all add: E_def)
  also have "\<dots> = 2 ^ 53 * 2 powi E"
    by (simp add: power_int_add)
  finally have "\<bar>a\<bar> / 2 powi E < 2 ^ 53"
    by (simp add: divide_less_eq)
  then have "\<bar>a / 2 powi E\<bar> \<le> of_int (2 ^ 53)"
    by simp
  then have "\<bar>m\<bar> \<le> 2 ^ 53"
    unfolding m_def by (rule round_ties_even_bound)
  moreover have "- 1074 \<le> E"
    by (simp add: E_def)
  ultimately show ?thesis
    using b by blast
qed

lemma b64_examples:
  "b64 1 = 1"
  "b64 (1 / 10) = 3602879701896397 / 2 ^ 55"
  "b64 (- 1 / 3) = - 6004799503160661 / 2 ^ 54"
  "b64 (1 + 1 / 2 ^ 53) = 1"
  "b64 (1 + 3 / 2 ^ 53) = 1 + 1 / 2 ^ 51"
  "b64 (2 ^ 53 + 1) = 2 ^ 53"
  "b64 (2 ^ 53 + 3) = 2 ^ 53 + 4"
  by code_simp+

lemma M_PI_b64_value: "M_PI_b64 = 884279719003555 / 2 ^ 48"
  unfolding M_PI_b64_def by code_simp

section \<open>The curves\<close>

text \<open>
  C3. Construction policy. A radius argument \<open>\<le> 0\<close> of the \<^verbatim>\<open>Circle\<close>, \<^verbatim>\<open>Ellipse\<close> (each
  axis on its own) or \<^verbatim>\<open>Helix\<close> constructor is replaced by \<open>1\<close>, so that \<open>Circle radius\<close> with
  \<open>radius \<le> 0\<close> is the same object as \<open>Circle 1\<close> and has the same radius, position and
  tangent; the pitch of a helix is stored as given, whatever its sign or value. The
  constructors are total functions into the object types: no construction signals an error.
\<close>

theorem construction_policy:
  "(radius \<le> 0 \<longrightarrow> Circle radius = Circle 1 \<and> getRadius (Circle radius) = 1
       \<and> Circle_getPoint (Circle radius) t = Circle_getPoint (Circle 1) t
       \<and> Circle_getDerivative (Circle radius) t = Circle_getDerivative (Circle 1) t)
   \<and> Circle.r (Circle radius) = (if radius \<le> 0 then 1 else radius)
   \<and> Ellipse.rx (Ellipse a b) = (if a \<le> 0 then 1 else a)
   \<and> Ellipse.ry (Ellipse a b) = (if b \<le> 0 then 1 else b)
   \<and> Helix.r (Helix radius pitch) = (if radius \<le> 0 then 1 else radius)
   \<and> Helix.step (Helix radius pitch) = pitch"
  by (simp add: Circle_def Ellipse_def Helix_def getRadius_def)

theorem construction_policy_witness:
  "(- 3 :: real) \<le> 0 \<and> Circle (- 3) = Circle 1 \<and> getRadius (Circle (- 3)) = 1
   \<and> Ellipse.rx (Ellipse (- 2) 5) = 1 \<and> Ellipse.ry (Ellipse (- 2) 5) = 5
   \<and> Helix.r (Helix 0 (- 7)) = 1 \<and> Helix.step (Helix 0 (- 7)) = - 7"
  using construction_policy [of "- 3" 0 "- 2" 5 "- 7"] construction_policy [of 0 0 "- 2" 5 "- 7"]
  by (simp add: getRadius_def Circle_def)

text \<open>
  C4. For every radius argument \<open>radius > 0\<close> and every real \<open>t\<close>, the position of
  \<open>Circle radius\<close> at \<open>t\<close> is \<open>(radius * cos t, radius * sin t, 0)\<close> and its tangent is
  \<open>(- radius * sin t, radius * cos t, 0)\<close>, directly and through a \<^verbatim>\<open>Curve\<close> pointer; at
  \<open>t = 0\<close> they are \<open>(radius, 0, 0)\<close> and \<open>(0, radius, 0)\<close>.
\<close>

theorem Circle_position_tangent:
  "0 < radius \<Longrightarrow>
     Circle_getPoint (Circle radius) t = \<lparr> x = radius * cos t, y = radius * sin t, z = 0 \<rparr>
   \<and> Circle_getDerivative (Circle radius) t
        = \<lparr> x = - radius * sin t, y = radius * cos t, z = 0 \<rparr>
   \<and> getPoint (Circle_obj (Circle radius)) t
        = \<lparr> x = radius * cos t, y = radius * sin t, z = 0 \<rparr>
   \<and> getDerivative (Circle_obj (Circle radius)) t
        = \<lparr> x = - radius * sin t, y = radius * cos t, z = 0 \<rparr>
   \<and> getPoint (Circle_obj (Circle radius)) 0 = \<lparr> x = radius, y = 0, z = 0 \<rparr>
   \<and> getDerivative (Circle_obj (Circle radius)) 0 = \<lparr> x = 0, y = radius, z = 0 \<rparr>"
  by (simp add: Circle_getPoint_def Circle_getDerivative_def Circle_def)

theorem Circle_position_tangent_witness:
  "(0::real) < 2 \<and> getPoint (Circle_obj (Circle 2)) 0 = \<lparr> x = 2, y = 0, z = 0 \<rparr>
     \<and> getDerivative (Circle_obj (Circle 2)) 0 = \<lparr> x = 0, y = 2, z = 0 \<rparr>"
  using Circle_position_tangent [of 2 0] by simp

text \<open>
  C8. For every constructed circle (any radius argument) and every real \<open>t\<close>, position and
  tangent are orthogonal: their dot product is \<open>0\<close> in exact real arithmetic; and both
  have the Euclidean norm of the stored radius, which is positive.
\<close>

theorem Circle_orthogonal_equal_norm:
  "dot (Circle_getPoint (Circle radius) t) (Circle_getDerivative (Circle radius) t) = 0
   \<and> norm3 (Circle_getPoint (Circle radius) t) = getRadius (Circle radius)
   \<and> norm3 (Circle_getDerivative (Circle radius) t) = getRadius (Circle radius)
   \<and> 0 < getRadius (Circle radius)"
proof -
  define c where "c = Circle.r (Circle radius)"
  have pos: "0 < c"
    by (simp add: c_def Circle_def)
  have sq: "(c * cos t) * (c * cos t) + (c * sin t) * (c * sin t) = c\<^sup>2"
  proof -
    have "(c * cos t) * (c * cos t) + (c * sin t) * (c * sin t)
            = c\<^sup>2 * ((sin t)\<^sup>2 + (cos t)\<^sup>2)"
      unfolding power2_eq_square by (simp only: distrib_left mult_ac add.commute)
    also have "\<dots> = c\<^sup>2"
      by simp
    finally show ?thesis .
  qed
  have sq': "(c * sin t) * (c * sin t) + (c * cos t) * (c * cos t) = c\<^sup>2"
    using sq by (simp add: add.commute)
  have root: "sqrt (c\<^sup>2) = c"
    using pos by simp
  have d: "dot (Circle_getPoint (Circle radius) t) (Circle_getDerivative (Circle radius) t) = 0"
    by (simp add: dot_def Circle_getPoint_def Circle_getDerivative_def)
  have n1: "norm3 (Circle_getPoint (Circle radius) t) = getRadius (Circle radius)"
    using sq root by (simp add: norm3_def dot_def Circle_getPoint_def getRadius_def c_def)
  have n2: "norm3 (Circle_getDerivative (Circle radius) t) = getRadius (Circle radius)"
    using sq' root by (simp add: norm3_def dot_def Circle_getDerivative_def getRadius_def c_def)
  show ?thesis
    using d n1 n2 pos by (simp add: getRadius_def c_def)
qed

text \<open>
  C10. A helix of pitch \<open>0\<close> coincides with the circle of the same radius argument: for
  every radius argument (also \<open>\<le> 0\<close>, where both store \<open>1\<close>) and every real \<open>t\<close>, positions
  and tangents are equal, directly and through a \<^verbatim>\<open>Curve\<close> pointer.
\<close>

theorem zero_pitch_Helix_is_Circle:
  "Helix_getPoint (Helix radius 0) t = Circle_getPoint (Circle radius) t
   \<and> Helix_getDerivative (Helix radius 0) t = Circle_getDerivative (Circle radius) t
   \<and> getPoint (Helix_obj (Helix radius 0)) t = getPoint (Circle_obj (Circle radius)) t
   \<and> getDerivative (Helix_obj (Helix radius 0)) t = getDerivative (Circle_obj (Circle radius)) t"
  by (simp add: Helix_getPoint_def Helix_getDerivative_def Circle_getPoint_def
      Circle_getDerivative_def Helix_def Circle_def)

text \<open>
  C5, as far as it holds. In exact real arithmetic, for every radius argument, every pitch
  and every real \<open>t\<close>, one full turn advances the third component of the position of
  \<open>Helix radius pitch\<close> by the pitch.
\<close>

theorem Helix_full_turn_exact_arithmetic:
  "z (Helix_getPoint (Helix radius pitch) (t + 2 * pi)) - z (Helix_getPoint (Helix radius pitch) t)
     = pitch
   \<and> z (getPoint (Helix_obj (Helix radius pitch)) (t + 2 * M_PI))
       - z (getPoint (Helix_obj (Helix radius pitch)) t) = pitch"
  by (simp add: Helix_getPoint_def Helix_def M_PI_def field_simps)

text \<open>
  C5 fails in double arithmetic, where each operation of \<^verbatim>\<open>step * t / (2 * M_PI)\<close> rounds.
  For \<open>Helix 1 1\<close> and \<open>t = 1\<close>, with \<open>t + 2 * M_PI\<close> computed in doubles, the two third
  components differ by \<open>1 - 3 / 2 ^ 55\<close>; the subtraction in doubles gives \<open>1 - 2 ^ - 53\<close>,
  the double just below the pitch \<open>1\<close>. For a large parameter the turn is lost altogether:
  at \<open>t = 2 ^ 60\<close> the double \<open>t + 2 * M_PI\<close> is \<open>t\<close> itself, and the difference is \<open>0\<close>.
\<close>

theorem Helix_full_turn_b64_counterexample:
  "Helix.step (Helix 1 1) = 1
   \<and> Helix_getPoint_z_b64 (Helix 1 1) (b64 (1 + b64 (2 * M_PI_b64)))
         - Helix_getPoint_z_b64 (Helix 1 1) 1 = 1 - 3 / 2 ^ 55
   \<and> b64 (Helix_getPoint_z_b64 (Helix 1 1) (b64 (1 + b64 (2 * M_PI_b64)))
           - Helix_getPoint_z_b64 (Helix 1 1) 1) = 1 - 1 / 2 ^ 53
   \<and> 1 - 1 / 2 ^ 53 \<noteq> (1 :: real)
   \<and> b64 (2 ^ 60 + b64 (2 * M_PI_b64)) = 2 ^ 60
   \<and> b64 (Helix_getPoint_z_b64 (Helix 1 1) (b64 (2 ^ 60 + b64 (2 * M_PI_b64)))
           - Helix_getPoint_z_b64 (Helix 1 1) (2 ^ 60)) = 0"
proof (intro conjI)
  show absorbed: "b64 (2 ^ 60 + b64 (2 * M_PI_b64)) = 2 ^ 60"
    unfolding M_PI_b64_value by code_simp
  show "b64 (Helix_getPoint_z_b64 (Helix 1 1) (b64 (2 ^ 60 + b64 (2 * M_PI_b64)))
           - Helix_getPoint_z_b64 (Helix 1 1) (2 ^ 60)) = 0"
    unfolding absorbed by (simp add: b64_def)
  show "Helix.step (Helix 1 1) = 1"
    by (simp add: Helix_def)
  show "Helix_getPoint_z_b64 (Helix 1 1) (b64 (1 + b64 (2 * M_PI_b64)))
         - Helix_getPoint_z_b64 (Helix 1 1) 1 = 1 - 3 / 2 ^ 55"
    unfolding Helix_getPoint_z_b64_def Helix_def M_PI_b64_value
    by code_simp
  show "b64 (Helix_getPoint_z_b64 (Helix 1 1) (b64 (1 + b64 (2 * M_PI_b64)))
           - Helix_getPoint_z_b64 (Helix 1 1) 1) = 1 - 1 / 2 ^ 53"
    unfolding Helix_getPoint_z_b64_def Helix_def M_PI_b64_value
    by code_simp
  show "1 - 1 / 2 ^ 53 \<noteq> (1 :: real)"
    by simp
qed

text \<open>
  The other properties of this section do not depend on the rounding; for instance the
  third component of a helix of pitch \<open>0\<close> is \<open>0\<close> in double arithmetic as well.
\<close>

lemma Helix_zero_pitch_z_b64: "Helix_getPoint_z_b64 (Helix radius 0) t = 0"
  by (simp add: Helix_getPoint_z_b64_def Helix_def b64_def)

section \<open>The pipeline\<close>

text \<open>
  C2. For every sequence of curve pointers, step (4) produces exactly the elements whose
  dynamic type is \<^verbatim>\<open>Circle\<close>, in their order in the first sequence: seen as curve pointers
  again, the second sequence is the first one filtered by \<open>is_Circle\<close>. The sequence
  Circle(3), Ellipse(1,2), Circle(1), Helix(2,1), Circle(2) gives Circle(3), Circle(1),
  Circle(2).
\<close>

theorem filter_keeps_exactly_the_circles:
  "map upcast (extract_circles curves) = filter is_Circle curves
   \<and> extract_circles
        [Ptr 0 (Circle_obj (Circle 3)), Ptr 1 (Ellipse_obj (Ellipse 1 2)),
         Ptr 2 (Circle_obj (Circle 1)), Ptr 3 (Helix_obj (Helix 2 1)),
         Ptr 4 (Circle_obj (Circle 2))]
      = [Ptr 0 (Circle 3), Ptr 2 (Circle 1), Ptr 4 (Circle 2)]"
  by (simp add: map_upcast_extract_circles) (simp add: extract_circles_def)

text \<open>
  C1 fails on sequences of more than 16 circles. For 17 circles of radius 2, at the
  addresses 0 to 16 in this order, the sort of the GNU library returns them in the order
  8, 16, 15, ..., 9, 0, 7, ..., 1: the median-of-three step exchanges the first element
  with the middle one, and the partition exchanges the equal elements pairwise from both
  ends.
\<close>

theorem sort_stability_counterexample:
  "extract_circles
     [Ptr 0 (Circle_obj (Circle 2)), Ptr 1 (Circle_obj (Circle 2)), Ptr 2 (Circle_obj (Circle 2)),
      Ptr 3 (Circle_obj (Circle 2)), Ptr 4 (Circle_obj (Circle 2)), Ptr 5 (Circle_obj (Circle 2)),
      Ptr 6 (Circle_obj (Circle 2)), Ptr 7 (Circle_obj (Circle 2)), Ptr 8 (Circle_obj (Circle 2)),
      Ptr 9 (Circle_obj (Circle 2)), Ptr 10 (Circle_obj (Circle 2)), Ptr 11 (Circle_obj (Circle 2)),
      Ptr 12 (Circle_obj (Circle 2)), Ptr 13 (Circle_obj (Circle 2)), Ptr 14 (Circle_obj (Circle 2)),
      Ptr 15 (Circle_obj (Circle 2)), Ptr 16 (Circle_obj (Circle 2))]
     = [Ptr 0 (Circle 2), Ptr 1 (Circle 2), Ptr 2 (Circle 2), Ptr 3 (Circle 2),
      Ptr 4 (Circle 2), Ptr 5 (Circle 2), Ptr 6 (Circle 2), Ptr 7 (Circle 2),
      Ptr 8 (Circle 2), Ptr 9 (Circle 2), Ptr 10 (Circle 2), Ptr 11 (Circle 2),
      Ptr 12 (Circle 2), Ptr 13 (Circle 2), Ptr 14 (Circle 2), Ptr 15 (Circle 2),
      Ptr 16 (Circle 2)]
   \<and> sort_by_radius
     [Ptr 0 (Circle 2), Ptr 1 (Circle 2), Ptr 2 (Circle 2), Ptr 3 (Circle 2),
      Ptr 4 (Circle 2), Ptr 5 (Circle 2), Ptr 6 (Circle 2), Ptr 7 (Circle 2),
      Ptr 8 (Circle 2), Ptr 9 (Circle 2), Ptr 10 (Circle 2), Ptr 11 (Circle 2),
      Ptr 12 (Circle 2), Ptr 13 (Circle 2), Ptr 14 (Circle 2), Ptr 15 (Circle 2),
      Ptr 16 (Circle 2)]
     = Inr [Ptr 8 (Circle 2), Ptr 16 (Circle 2), Ptr 15 (Circle 2), Ptr 14 (Circle 2),
      Ptr 13 (Circle 2), Ptr 12 (Circle 2), Ptr 11 (Circle 2), Ptr 10 (Circle 2),
      Ptr 9 (Circle 2), Ptr 0 (Circle 2), Ptr 7 (Circle 2), Ptr 6 (Circle 2),
      Ptr 5 (Circle 2), Ptr 4 (Circle 2), Ptr 3 (Circle 2), Ptr 2 (Circle 2),
      Ptr 1 (Circle 2)]
   \<and> [Ptr 8 (Circle 2), Ptr 16 (Circle 2), Ptr 15 (Circle 2), Ptr 14 (Circle 2),
      Ptr 13 (Circle 2), Ptr 12 (Circle 2), Ptr 11 (Circle 2), Ptr 10 (Circle 2),
      Ptr 9 (Circle 2), Ptr 0 (Circle 2), Ptr 7 (Circle 2), Ptr 6 (Circle 2),
      Ptr 5 (Circle 2), Ptr 4 (Circle 2), Ptr 3 (Circle 2), Ptr 2 (Circle 2),
      Ptr 1 (Circle 2)]
     \<noteq> [Ptr 0 (Circle 2), Ptr 1 (Circle 2), Ptr 2 (Circle 2), Ptr 3 (Circle 2),
      Ptr 4 (Circle 2), Ptr 5 (Circle 2), Ptr 6 (Circle 2), Ptr 7 (Circle 2),
      Ptr 8 (Circle 2), Ptr 9 (Circle 2), Ptr 10 (Circle 2), Ptr 11 (Circle 2),
      Ptr 12 (Circle 2), Ptr 13 (Circle 2), Ptr 14 (Circle 2), Ptr 15 (Circle 2),
      Ptr 16 (Circle 2)]"
proof (intro conjI)
  show "extract_circles
     [Ptr 0 (Circle_obj (Circle 2)), Ptr 1 (Circle_obj (Circle 2)), Ptr 2 (Circle_obj (Circle 2)),
      Ptr 3 (Circle_obj (Circle 2)), Ptr 4 (Circle_obj (Circle 2)), Ptr 5 (Circle_obj (Circle 2)),
      Ptr 6 (Circle_obj (Circle 2)), Ptr 7 (Circle_obj (Circle 2)), Ptr 8 (Circle_obj (Circle 2)),
      Ptr 9 (Circle_obj (Circle 2)), Ptr 10 (Circle_obj (Circle 2)), Ptr 11 (Circle_obj (Circle 2)),
      Ptr 12 (Circle_obj (Circle 2)), Ptr 13 (Circle_obj (Circle 2)), Ptr 14 (Circle_obj (Circle 2)),
      Ptr 15 (Circle_obj (Circle 2)), Ptr 16 (Circle_obj (Circle 2))]
     = [Ptr 0 (Circle 2), Ptr 1 (Circle 2), Ptr 2 (Circle 2), Ptr 3 (Circle 2),
      Ptr 4 (Circle 2), Ptr 5 (Circle 2), Ptr 6 (Circle 2), Ptr 7 (Circle 2),
      Ptr 8 (Circle 2), Ptr 9 (Circle 2), Ptr 10 (Circle 2), Ptr 11 (Circle 2),
      Ptr 12 (Circle 2), Ptr 13 (Circle 2), Ptr 14 (Circle 2), Ptr 15 (Circle 2),
      Ptr 16 (Circle 2)]"
    by (simp add: extract_circles_def)
  show "sort_by_radius
     [Ptr 0 (Circle 2), Ptr 1 (Circle 2), Ptr 2 (Circle 2), Ptr 3 (Circle 2),
      Ptr 4 (Circle 2), Ptr 5 (Circle 2), Ptr 6 (Circle 2), Ptr 7 (Circle 2),
      Ptr 8 (Circle 2), Ptr 9 (Circle 2), Ptr 10 (Circle 2), Ptr 11 (Circle 2),
      Ptr 12 (Circle 2), Ptr 13 (Circle 2), Ptr 14 (Circle 2), Ptr 15 (Circle 2),
      Ptr 16 (Circle 2)]
     = Inr [Ptr 8 (Circle 2), Ptr 16 (Circle 2), Ptr 15 (Circle 2), Ptr 14 (Circle 2),
      Ptr 13 (Circle 2), Ptr 12 (Circle 2), Ptr 11 (Circle 2), Ptr 10 (Circle 2),
      Ptr 9 (Circle 2), Ptr 0 (Circle 2), Ptr 7 (Circle 2), Ptr 6 (Circle 2),
      Ptr 5 (Circle 2), Ptr 4 (Circle 2), Ptr 3 (Circle 2), Ptr 2 (Circle 2),
      Ptr 1 (Circle 2)]"
    by code_simp
  show "[Ptr 8 (Circle 2), Ptr 16 (Circle 2), Ptr 15 (Circle 2), Ptr 14 (Circle 2),
      Ptr 13 (Circle 2), Ptr 12 (Circle 2), Ptr 11 (Circle 2), Ptr 10 (Circle 2),
      Ptr 9 (Circle 2), Ptr 0 (Circle 2), Ptr 7 (Circle 2), Ptr 6 (Circle 2),
      Ptr 5 (Circle 2), Ptr 4 (Circle 2), Ptr 3 (Circle 2), Ptr 2 (Circle 2),
      Ptr 1 (Circle 2)]
     \<noteq> [Ptr 0 (Circle 2), Ptr 1 (Circle 2), Ptr 2 (Circle 2), Ptr 3 (Circle 2),
      Ptr 4 (Circle 2), Ptr 5 (Circle 2), Ptr 6 (Circle 2), Ptr 7 (Circle 2),
      Ptr 8 (Circle 2), Ptr 9 (Circle 2), Ptr 10 (Circle 2), Ptr 11 (Circle 2),
      Ptr 12 (Circle 2), Ptr 13 (Circle 2), Ptr 14 (Circle 2), Ptr 15 (Circle 2),
      Ptr 16 (Circle 2)]"
    by simp
qed

text \<open>The outcome above is one of those that the contract of \<^verbatim>\<open>std::sort\<close> permits.\<close>

lemma reordered_outcome_permitted:
  "std_sort radius_less
     [Ptr 0 (Circle 2), Ptr 1 (Circle 2), Ptr 2 (Circle 2), Ptr 3 (Circle 2),
      Ptr 4 (Circle 2), Ptr 5 (Circle 2), Ptr 6 (Circle 2), Ptr 7 (Circle 2),
      Ptr 8 (Circle 2), Ptr 9 (Circle 2), Ptr 10 (Circle 2), Ptr 11 (Circle 2),
      Ptr 12 (Circle 2), Ptr 13 (Circle 2), Ptr 14 (Circle 2), Ptr 15 (Circle 2),
      Ptr 16 (Circle 2)]
     (Some [Ptr 8 (Circle 2), Ptr 16 (Circle 2), Ptr 15 (Circle 2), Ptr 14 (Circle 2),
      Ptr 13 (Circle 2), Ptr 12 (Circle 2), Ptr 11 (Circle 2), Ptr 10 (Circle 2),
      Ptr 9 (Circle 2), Ptr 0 (Circle 2), Ptr 7 (Circle 2), Ptr 6 (Circle 2),
      Ptr 5 (Circle 2), Ptr 4 (Circle 2), Ptr 3 (Circle 2), Ptr 2 (Circle 2),
      Ptr 1 (Circle 2)])"
proof -
  have "strict_weak_ordering radius_less
     [Ptr 0 (Circle 2), Ptr 1 (Circle 2), Ptr 2 (Circle 2), Ptr 3 (Circle 2),
      Ptr 4 (Circle 2), Ptr 5 (Circle 2), Ptr 6 (Circle 2), Ptr 7 (Circle 2),
      Ptr 8 (Circle 2), Ptr 9 (Circle 2), Ptr 10 (Circle 2), Ptr 11 (Circle 2),
      Ptr 12 (Circle 2), Ptr 13 (Circle 2), Ptr 14 (Circle 2), Ptr 15 (Circle 2),
      Ptr 16 (Circle 2)]"
    by (rule strict_weak_ordering_radius_less) simp
  moreover have "mset [Ptr 8 (Circle 2), Ptr 16 (Circle 2), Ptr 15 (Circle 2), Ptr 14 (Circle 2),
      Ptr 13 (Circle 2), Ptr 12 (Circle 2), Ptr 11 (Circle 2), Ptr 10 (Circle 2),
      Ptr 9 (Circle 2), Ptr 0 (Circle 2), Ptr 7 (Circle 2), Ptr 6 (Circle 2),
      Ptr 5 (Circle 2), Ptr 4 (Circle 2), Ptr 3 (Circle 2), Ptr 2 (Circle 2),
      Ptr 1 (Circle 2)]
     = mset [Ptr 0 (Circle 2), Ptr 1 (Circle 2), Ptr 2 (Circle 2), Ptr 3 (Circle 2),
      Ptr 4 (Circle 2), Ptr 5 (Circle 2), Ptr 6 (Circle 2), Ptr 7 (Circle 2),
      Ptr 8 (Circle 2), Ptr 9 (Circle 2), Ptr 10 (Circle 2), Ptr 11 (Circle 2),
      Ptr 12 (Circle 2), Ptr 13 (Circle 2), Ptr 14 (Circle 2), Ptr 15 (Circle 2),
      Ptr 16 (Circle 2)]"
    by (simp add: add_mset_commute)
  moreover have "sorted_by radius_less
     [Ptr 8 (Circle 2), Ptr 16 (Circle 2), Ptr 15 (Circle 2), Ptr 14 (Circle 2),
      Ptr 13 (Circle 2), Ptr 12 (Circle 2), Ptr 11 (Circle 2), Ptr 10 (Circle 2),
      Ptr 9 (Circle 2), Ptr 0 (Circle 2), Ptr 7 (Circle 2), Ptr 6 (Circle 2),
      Ptr 5 (Circle 2), Ptr 4 (Circle 2), Ptr 3 (Circle 2), Ptr 2 (Circle 2),
      Ptr 1 (Circle 2)]"
    by (rule sorted_radii_sorted_by) (simp_all add: radii_def map_filter_simps getRadius_def)
  ultimately show ?thesis
    by (simp add: std_sort_def)
qed

text \<open>
  C1, as far as it holds. For every sequence of circles produced by step (4), the sort has
  an outcome, and every outcome that the contract permits is a rearrangement of the
  sequence whose radii are in non-decreasing order: the radii of the result are the radii
  of the input, sorted; when no two circles have the same radius, the outcome is unique.
  When the sequence has at most 16 circles, as in every run of \<^verbatim>\<open>main\<close> with its 10
  curves (the sequence is never longer than the first one), the sort of the GNU library
  returns such an outcome and keeps the relative order of circles with equal radii: for
  every radius, the circles of this radius are in the same order before and after. In
  particular it returns A, B for the circles A, B of radius 2.
\<close>

theorem sort_orders_radii:
  "(\<exists>ys. std_sort radius_less (extract_circles curves) (Some ys))
   \<and> (std_sort radius_less (extract_circles curves) out \<longrightarrow>
        (\<exists>ys. out = Some ys \<and> mset ys = mset (extract_circles curves)
           \<and> length (radii ys) = length ys \<and> sorted (radii ys)
           \<and> radii ys = sort (radii (extract_circles curves))))
   \<and> (distinct (radii (extract_circles curves)) \<longrightarrow>
       std_sort radius_less (extract_circles curves) (Some ys1) \<longrightarrow>
       std_sort radius_less (extract_circles curves) (Some ys2) \<longrightarrow> ys1 = ys2)
   \<and> (length (extract_circles curves) \<le> 16 \<longrightarrow>
        (\<exists>ys. sort_by_radius (extract_circles curves) = Inr ys
           \<and> std_sort radius_less (extract_circles curves) (Some ys)
           \<and> (\<forall>k. filter (\<lambda>p. arrow_getRadius p = Some k) ys
                  = filter (\<lambda>p. arrow_getRadius p = Some k) (extract_circles curves))))
   \<and> length (extract_circles curves) \<le> length curves
   \<and> sort_by_radius
         (extract_circles [Ptr 0 (Circle_obj (Circle 2)), Ptr 1 (Circle_obj (Circle 2))])
       = Inr [Ptr 0 (Circle 2), Ptr 1 (Circle 2)]"
proof (intro conjI impI)
  show "\<exists>ys. std_sort radius_less (extract_circles curves) (Some ys)"
    using extract_circles_no_nullptr by (rule std_sort_returns)
next
  assume "distinct (radii (extract_circles curves))"
    and "std_sort radius_less (extract_circles curves) (Some ys1)"
    and "std_sort radius_less (extract_circles curves) (Some ys2)"
  with extract_circles_no_nullptr show "ys1 = ys2"
    by (rule std_sort_unique)
next
  assume "std_sort radius_less (extract_circles curves) out"
  then obtain ys where ys: "out = Some ys" "mset ys = mset (extract_circles curves)"
      "nullptr \<notin> set ys" "sorted (radii ys)" "radii ys = sort (radii (extract_circles curves))"
    using std_sort_outcome [OF extract_circles_no_nullptr] by blast
  with length_radii [OF ys(3)]
  show "\<exists>ys. out = Some ys \<and> mset ys = mset (extract_circles curves)
           \<and> length (radii ys) = length ys \<and> sorted (radii ys)
           \<and> radii ys = sort (radii (extract_circles curves))"
    by simp
next
  assume "length (extract_circles curves) \<le> 16"
  with extract_circles_no_nullptr
  show "\<exists>ys. sort_by_radius (extract_circles curves) = Inr ys
           \<and> std_sort radius_less (extract_circles curves) (Some ys)
           \<and> (\<forall>k. filter (\<lambda>p. arrow_getRadius p = Some k) ys
                  = filter (\<lambda>p. arrow_getRadius p = Some k) (extract_circles curves))"
    by (rule sort_by_radius_short)
next
  show "length (extract_circles curves) \<le> length curves"
    by (rule length_extract_circles)
next
  have "extract_circles [Ptr 0 (Circle_obj (Circle 2)), Ptr 1 (Circle_obj (Circle 2))]
          = [Ptr 0 (Circle 2), Ptr 1 (Circle 2)]"
    by (simp add: extract_circles_def)
  moreover have "sort_by_radius [Ptr 0 (Circle 2), Ptr 1 (Circle 2)]
          = Inr [Ptr 0 (Circle 2), Ptr 1 (Circle 2)]"
    by code_simp
  ultimately show "sort_by_radius
         (extract_circles [Ptr 0 (Circle_obj (Circle 2)), Ptr 1 (Circle_obj (Circle 2))])
       = Inr [Ptr 0 (Circle 2), Ptr 1 (Circle 2)]"
    by simp
qed

theorem sort_orders_radii_witness:
  "std_sort radius_less
     (extract_circles [Ptr 0 (Circle_obj (Circle 3)), Ptr 1 (Circle_obj (Circle 1)),
        Ptr 2 (Circle_obj (Circle 2))])
     (Some [Ptr 1 (Circle 1), Ptr 2 (Circle 2), Ptr 0 (Circle 3)])
   \<and> radii [Ptr 1 (Circle 1), Ptr 2 (Circle 2), Ptr 0 (Circle 3)] = [1, 2, 3]
   \<and> sorted (radii [Ptr 1 (Circle 1), Ptr 2 (Circle 2), Ptr 0 (Circle 3)])
   \<and> distinct (radii (extract_circles [Ptr 0 (Circle_obj (Circle 3)),
         Ptr 1 (Circle_obj (Circle 1)), Ptr 2 (Circle_obj (Circle 2))]))
   \<and> length (extract_circles [Ptr 0 (Circle_obj (Circle 3)),
         Ptr 1 (Circle_obj (Circle 1)), Ptr 2 (Circle_obj (Circle 2))]) \<le> 16
   \<and> sort_by_radius (extract_circles [Ptr 0 (Circle_obj (Circle 3)),
         Ptr 1 (Circle_obj (Circle 1)), Ptr 2 (Circle_obj (Circle 2))])
       = Inr [Ptr 1 (Circle 1), Ptr 2 (Circle 2), Ptr 0 (Circle 3)]"
proof -
  define cs where "cs = [Ptr 0 (Circle_obj (Circle 3)), Ptr 1 (Circle_obj (Circle 1)),
        Ptr 2 (Circle_obj (Circle 2))]"
  define zs where "zs = [Ptr 1 (Circle 1), Ptr 2 (Circle 2), Ptr 0 (Circle 3)]"
  have d: "distinct (radii (extract_circles cs))"
    by (simp add: cs_def extract_circles_def radii_def map_filter_simps getRadius_def Circle_def)
  have l: "length (extract_circles cs) \<le> 16"
    by (simp add: cs_def extract_circles_def)
  have h: "std_sort radius_less (extract_circles cs) (Some zs)"
    by (auto simp add: cs_def zs_def extract_circles_def std_sort_def strict_weak_ordering_def
        sorted_by_def radius_less_def getRadius_def Circle_def)
  have r: "radii zs = [1, 2, 3]"
    by (simp add: zs_def radii_def map_filter_simps getRadius_def Circle_def)
  note inst = sort_orders_radii [of cs "Some zs" zs]
  from inst l obtain ys where ys: "sort_by_radius (extract_circles cs) = Inr ys"
      "std_sort radius_less (extract_circles cs) (Some ys)"
    by blast
  from sort_orders_radii [of cs "Some zs" zs ys] d h ys(2) have "zs = ys"
    by blast
  with ys(1) have s: "sort_by_radius (extract_circles cs) = Inr zs"
    by simp
  from inst h have "sorted (radii zs)"
    by auto
  with h r d l s show ?thesis
    unfolding cs_def zs_def by simp
qed

text \<open>
  C9. The sort step permutes: for every sequence of circles produced by step (4), every
  outcome of the sort is a sequence with the same multiset of elements, hence of the same
  length and with the same multiset of radii.
\<close>

theorem sort_is_permutation:
  "(\<exists>ys. std_sort radius_less (extract_circles curves) (Some ys))
   \<and> (std_sort radius_less (extract_circles curves) out \<longrightarrow>
        (\<exists>ys. out = Some ys \<and> mset ys = mset (extract_circles curves)
           \<and> length ys = length (extract_circles curves)
           \<and> mset (radii ys) = mset (radii (extract_circles curves))))"
proof (intro conjI impI)
  show "\<exists>ys. std_sort radius_less (extract_circles curves) (Some ys)"
    using extract_circles_no_nullptr by (rule std_sort_returns)
next
  assume "std_sort radius_less (extract_circles curves) out"
  then obtain ys where ys: "out = Some ys" "mset ys = mset (extract_circles curves)"
    using std_sort_outcome [OF extract_circles_no_nullptr] by blast
  from ys(2) have "length ys = length (extract_circles curves)"
    by (rule mset_eq_length)
  with ys mset_radii [OF ys(2)]
  show "\<exists>ys. out = Some ys \<and> mset ys = mset (extract_circles curves)
           \<and> length ys = length (extract_circles curves)
           \<and> mset (radii ys) = mset (radii (extract_circles curves))"
    by simp
qed

theorem sort_is_permutation_witness:
  "std_sort radius_less
     (extract_circles [Ptr 0 (Circle_obj (Circle 3)), Ptr 1 (Ellipse_obj (Ellipse 1 2)),
        Ptr 2 (Circle_obj (Circle 1))])
     (Some [Ptr 2 (Circle 1), Ptr 0 (Circle 3)])
   \<and> mset [Ptr 2 (Circle 1), Ptr 0 (Circle 3)]
       = mset (extract_circles [Ptr 0 (Circle_obj (Circle 3)), Ptr 1 (Ellipse_obj (Ellipse 1 2)),
           Ptr 2 (Circle_obj (Circle 1))])
   \<and> length (extract_circles [Ptr 0 (Circle_obj (Circle 3)), Ptr 1 (Ellipse_obj (Ellipse 1 2)),
           Ptr 2 (Circle_obj (Circle 1))]) = 2"
proof -
  have h: "std_sort radius_less
     (extract_circles [Ptr 0 (Circle_obj (Circle 3)), Ptr 1 (Ellipse_obj (Ellipse 1 2)),
        Ptr 2 (Circle_obj (Circle 1))])
     (Some [Ptr 2 (Circle 1), Ptr 0 (Circle 3)])"
    by (auto simp add: extract_circles_def std_sort_def strict_weak_ordering_def sorted_by_def
        radius_less_def getRadius_def Circle_def)
  show ?thesis
    using h
      sort_is_permutation [of "[Ptr 0 (Circle_obj (Circle 3)), Ptr 1 (Ellipse_obj (Ellipse 1 2)),
        Ptr 2 (Circle_obj (Circle 1))]" "Some [Ptr 2 (Circle 1), Ptr 0 (Circle 3)]"]
    by simp
qed

text \<open>
  C6 fails in double arithmetic, where the sum depends on the order of the additions. For
  the circles of radii \<open>2 ^ 53\<close>, \<open>1\<close>, \<open>1\<close> the loop of step (6) gives \<open>2 ^ 53\<close> before the
  sort (each \<open>+ 1\<close> is rounded away) and \<open>2 ^ 53 + 2\<close> after it.
\<close>

theorem sum_order_b64_counterexample:
  "extract_circles
     [Ptr 0 (Circle_obj (Circle 9007199254740992)), Ptr 1 (Circle_obj (Circle 1)),
      Ptr 2 (Circle_obj (Circle 1))]
     = [Ptr 0 (Circle 9007199254740992), Ptr 1 (Circle 1), Ptr 2 (Circle 1)]
   \<and> std_sort radius_less [Ptr 0 (Circle 9007199254740992), Ptr 1 (Circle 1), Ptr 2 (Circle 1)]
         (Some [Ptr 1 (Circle 1), Ptr 2 (Circle 1), Ptr 0 (Circle 9007199254740992)])
   \<and> sum_of_radii_b64 [Ptr 0 (Circle 9007199254740992), Ptr 1 (Circle 1), Ptr 2 (Circle 1)]
         = Some 9007199254740992
   \<and> sum_of_radii_b64 [Ptr 1 (Circle 1), Ptr 2 (Circle 1), Ptr 0 (Circle 9007199254740992)]
         = Some 9007199254740994"
proof (intro conjI)
  show "extract_circles
     [Ptr 0 (Circle_obj (Circle 9007199254740992)), Ptr 1 (Circle_obj (Circle 1)),
      Ptr 2 (Circle_obj (Circle 1))]
     = [Ptr 0 (Circle 9007199254740992), Ptr 1 (Circle 1), Ptr 2 (Circle 1)]"
    by (simp add: extract_circles_def)
  show "std_sort radius_less [Ptr 0 (Circle 9007199254740992), Ptr 1 (Circle 1), Ptr 2 (Circle 1)]
         (Some [Ptr 1 (Circle 1), Ptr 2 (Circle 1), Ptr 0 (Circle 9007199254740992)])"
    by (auto simp add: std_sort_def strict_weak_ordering_def sorted_by_def radius_less_def
        getRadius_def Circle_def)
  have a1: "b64 9007199254740992 = 9007199254740992"
    by code_simp
  have a2: "b64 9007199254740993 = 9007199254740992"
    by code_simp
  have b1: "b64 1 = 1"
    by code_simp
  have b2: "b64 2 = 2"
    by code_simp
  have b3: "b64 9007199254740994 = 9007199254740994"
    by code_simp
  show "sum_of_radii_b64 [Ptr 0 (Circle 9007199254740992), Ptr 1 (Circle 1), Ptr 2 (Circle 1)]
         = Some 9007199254740992"
    by (simp add: sum_of_radii_b64_def getRadius_def Circle_def a1 a2)
  show "sum_of_radii_b64 [Ptr 1 (Circle 1), Ptr 2 (Circle 1), Ptr 0 (Circle 9007199254740992)]
         = Some 9007199254740994"
    by (simp add: sum_of_radii_b64_def getRadius_def Circle_def b1 b2 b3)
qed

text \<open>
  The sum after the sort does not depend on the outcome chosen: every outcome of sorting
  these three circles has the radii \<open>1\<close>, \<open>1\<close>, \<open>2 ^ 53\<close> in this order.
\<close>

lemma sum_order_b64_every_outcome:
  assumes "std_sort radius_less
     [Ptr 0 (Circle 9007199254740992), Ptr 1 (Circle 1), Ptr 2 (Circle 1)] out"
  shows "\<exists>ys. out = Some ys \<and> sum_of_radii_b64 ys = Some 9007199254740994"
proof -
  have n: "nullptr \<notin> set [Ptr 0 (Circle 9007199254740992), Ptr 1 (Circle 1), Ptr 2 (Circle 1)]"
    by simp
  have r: "radii [Ptr 0 (Circle 9007199254740992), Ptr 1 (Circle 1), Ptr 2 (Circle 1)]
             = [9007199254740992, 1, 1]"
    by (simp add: radii_def map_filter_simps getRadius_def Circle_def)
  from std_sort_outcome [OF n assms] obtain ys
    where ys: "out = Some ys" "nullptr \<notin> set ys" "radii ys = [1, 1, 9007199254740992]"
    unfolding r by auto
  have b1: "b64 1 = 1"
    by code_simp
  have b2: "b64 2 = 2"
    by code_simp
  have b3: "b64 9007199254740994 = 9007199254740994"
    by code_simp
  have "sum_of_radii_b64 ys = Some 9007199254740994"
    by (simp add: sum_of_radii_b64_def sum_loop_b64_radii [OF ys(2)] ys(3) b1 b2 b3)
  with ys(1) show ?thesis
    by simp
qed

text \<open>
  The same happens for radii in the range \<open>[1, 10)\<close> of step (2): for the doubles nearest
  to \<open>1.1\<close>, \<open>3.3\<close>, \<open>2.2\<close> the sum in this order is the double printed as
  \<open>6.6000000000000005\<close>, and in sorted order the double printed as \<open>6.6\<close>.
\<close>

lemma sum_order_b64_demo_range:
  "sum_of_radii_b64 [Ptr 0 (Circle (b64 (11 / 10))), Ptr 1 (Circle (b64 (33 / 10))),
       Ptr 2 (Circle (b64 (22 / 10)))] = Some (7430939385161319 / 2 ^ 50)
   \<and> sum_of_radii_b64 [Ptr 0 (Circle (b64 (11 / 10))), Ptr 2 (Circle (b64 (22 / 10))),
       Ptr 1 (Circle (b64 (33 / 10)))] = Some (3715469692580659 / 2 ^ 49)"
proof -
  have v: "b64 (11 / 10) = 2476979795053773 / 2 ^ 51" "b64 (33 / 10) = 3715469692580659 / 2 ^ 50"
    "b64 (22 / 10) = 2476979795053773 / 2 ^ 50"
    by code_simp+
  have a: "b64 (b64 (b64 (0 + 2476979795053773 / 2 ^ 51) + 3715469692580659 / 2 ^ 50)
              + 2476979795053773 / 2 ^ 50) = 7430939385161319 / 2 ^ 50"
    by code_simp
  have b: "b64 (b64 (b64 (0 + 2476979795053773 / 2 ^ 51) + 2476979795053773 / 2 ^ 50)
              + 3715469692580659 / 2 ^ 50) = 3715469692580659 / 2 ^ 49"
    by code_simp
  have pos: "(0::real) < 2476979795053773 / 2 ^ 51" "(0::real) < 3715469692580659 / 2 ^ 50"
    "(0::real) < 2476979795053773 / 2 ^ 50"
    by simp_all
  show ?thesis
    unfolding v sum_of_radii_b64_def
    using a b pos by (simp add: getRadius_def Circle_def del: power_numeral)
qed

text \<open>
  A second sort of a sorted sequence may exchange circles of equal radius: the GNU sort
  does so for 17 circles of radius 4. What every sort keeps is the sequence of the radii.
\<close>

lemma resort_exchanges_equal_radii:
  "sort_by_radius
     [Ptr 20 (Circle 4), Ptr 21 (Circle 4), Ptr 22 (Circle 4), Ptr 23 (Circle 4),
      Ptr 24 (Circle 4), Ptr 25 (Circle 4), Ptr 26 (Circle 4), Ptr 27 (Circle 4),
      Ptr 28 (Circle 4), Ptr 29 (Circle 4), Ptr 30 (Circle 4), Ptr 31 (Circle 4),
      Ptr 32 (Circle 4), Ptr 33 (Circle 4), Ptr 34 (Circle 4), Ptr 35 (Circle 4),
      Ptr 36 (Circle 4)]
     = Inr [Ptr 28 (Circle 4), Ptr 36 (Circle 4), Ptr 35 (Circle 4), Ptr 34 (Circle 4),
      Ptr 33 (Circle 4), Ptr 32 (Circle 4), Ptr 31 (Circle 4), Ptr 30 (Circle 4),
      Ptr 29 (Circle 4), Ptr 20 (Circle 4), Ptr 27 (Circle 4), Ptr 26 (Circle 4),
      Ptr 25 (Circle 4), Ptr 24 (Circle 4), Ptr 23 (Circle 4), Ptr 22 (Circle 4),
      Ptr 21 (Circle 4)]"
  by code_simp

text \<open>
  C6, as far as it holds. For every sequence of circles produced by step (4), with \<open>ys\<close>
  a result of sorting it and \<open>zs\<close> a result of sorting \<open>ys\<close> again: in exact real arithmetic
  the sum of the radii is the same before the sort, after it and after the second sort;
  the second sort leaves the sequence of radii as it is, so that also in double arithmetic
  the sum after the second sort is the sum after the first.
\<close>

theorem sum_invariant_under_sort:
  "(\<exists>ys zs. std_sort radius_less (extract_circles curves) (Some ys)
        \<and> std_sort radius_less ys (Some zs))
   \<and> (std_sort radius_less (extract_circles curves) (Some ys) \<longrightarrow>
       std_sort radius_less ys (Some zs) \<longrightarrow>
        (\<exists>s. sum_of_radii (extract_circles curves) = Some s
           \<and> sum_of_radii ys = Some s \<and> sum_of_radii zs = Some s
           \<and> radii zs = radii ys
           \<and> sum_of_radii_b64 zs = sum_of_radii_b64 ys))"
proof (intro conjI impI)
  have nx: "nullptr \<notin> set (extract_circles curves)"
    by (rule extract_circles_no_nullptr)
  from std_sort_returns [OF nx] obtain ys
    where ys: "std_sort radius_less (extract_circles curves) (Some ys)" ..
  from std_sort_outcome [OF nx ys] have "nullptr \<notin> set ys"
    by simp
  from std_sort_returns [OF this] obtain zs where "std_sort radius_less ys (Some zs)" ..
  with ys show "\<exists>ys zs. std_sort radius_less (extract_circles curves) (Some ys)
        \<and> std_sort radius_less ys (Some zs)"
    by blast
next
  assume 1: "std_sort radius_less (extract_circles curves) (Some ys)"
    and 2: "std_sort radius_less ys (Some zs)"
  have nx: "nullptr \<notin> set (extract_circles curves)"
    by (rule extract_circles_no_nullptr)
  from std_sort_outcome [OF nx 1]
  have my: "mset ys = mset (extract_circles curves)" and ny: "nullptr \<notin> set ys"
    and sy: "sorted (radii ys)"
    by simp_all
  from std_sort_outcome [OF ny 2]
  have mz: "mset zs = mset ys" and nz: "nullptr \<notin> set zs" and rz: "radii zs = sort (radii ys)"
    by simp_all
  have same: "radii zs = radii ys"
    using rz sy by (simp add: sorted_sort_id)
  have "sum_of_radii ys = sum_of_radii (extract_circles curves)"
    using sum_list_radii_mset [OF my] by (simp add: sum_of_radii_def sum_loop_radii nx ny)
  moreover have "sum_of_radii zs = sum_of_radii ys"
    using same by (simp add: sum_of_radii_def sum_loop_radii ny nz)
  moreover have "sum_of_radii_b64 zs = sum_of_radii_b64 ys"
    using same by (simp add: sum_of_radii_b64_def sum_loop_b64_radii ny nz)
  moreover have "\<exists>s. sum_of_radii (extract_circles curves) = Some s"
    by (simp add: sum_of_radii_def sum_loop_radii nx)
  ultimately show "\<exists>s. sum_of_radii (extract_circles curves) = Some s
           \<and> sum_of_radii ys = Some s \<and> sum_of_radii zs = Some s
           \<and> radii zs = radii ys
           \<and> sum_of_radii_b64 zs = sum_of_radii_b64 ys"
    using same by auto
qed

theorem sum_invariant_under_sort_witness:
  "std_sort radius_less
     (extract_circles [Ptr 0 (Circle_obj (Circle 3)), Ptr 1 (Helix_obj (Helix 2 1)),
        Ptr 2 (Circle_obj (Circle 1)), Ptr 3 (Circle_obj (Circle 2))])
     (Some [Ptr 2 (Circle 1), Ptr 3 (Circle 2), Ptr 0 (Circle 3)])
   \<and> std_sort radius_less [Ptr 2 (Circle 1), Ptr 3 (Circle 2), Ptr 0 (Circle 3)]
     (Some [Ptr 2 (Circle 1), Ptr 3 (Circle 2), Ptr 0 (Circle 3)])
   \<and> sum_of_radii (extract_circles [Ptr 0 (Circle_obj (Circle 3)), Ptr 1 (Helix_obj (Helix 2 1)),
        Ptr 2 (Circle_obj (Circle 1)), Ptr 3 (Circle_obj (Circle 2))]) = Some 6
   \<and> sum_of_radii [Ptr 2 (Circle 1), Ptr 3 (Circle 2), Ptr 0 (Circle 3)] = Some 6"
proof -
  have h1: "std_sort radius_less
     (extract_circles [Ptr 0 (Circle_obj (Circle 3)), Ptr 1 (Helix_obj (Helix 2 1)),
        Ptr 2 (Circle_obj (Circle 1)), Ptr 3 (Circle_obj (Circle 2))])
     (Some [Ptr 2 (Circle 1), Ptr 3 (Circle 2), Ptr 0 (Circle 3)])"
    by (auto simp add: extract_circles_def std_sort_def strict_weak_ordering_def sorted_by_def
        radius_less_def getRadius_def Circle_def)
  have h2: "std_sort radius_less [Ptr 2 (Circle 1), Ptr 3 (Circle 2), Ptr 0 (Circle 3)]
     (Some [Ptr 2 (Circle 1), Ptr 3 (Circle 2), Ptr 0 (Circle 3)])"
    by (auto simp add: std_sort_def strict_weak_ordering_def sorted_by_def
        radius_less_def getRadius_def Circle_def)
  have s: "sum_of_radii [Ptr 2 (Circle 1), Ptr 3 (Circle 2), Ptr 0 (Circle 3)] = Some 6"
    by (simp add: sum_of_radii_def getRadius_def Circle_def)
  show ?thesis
    using h1 h2 s
      sum_invariant_under_sort [of "[Ptr 0 (Circle_obj (Circle 3)), Ptr 1 (Helix_obj (Helix 2 1)),
        Ptr 2 (Circle_obj (Circle 1)), Ptr 3 (Circle_obj (Circle 2))]"
        "[Ptr 2 (Circle 1), Ptr 3 (Circle 2), Ptr 0 (Circle 3)]"
        "[Ptr 2 (Circle 1), Ptr 3 (Circle 2), Ptr 0 (Circle 3)]"]
    by simp
qed

text \<open>
  C7. When no element of the first sequence is a circle, step (4) gives the empty
  sequence, the only outcome of sorting it is the empty sequence, and the sum of the radii
  is \<open>0\<close>, in exact and in double arithmetic. On every input, steps (4) to (6) run without failure: the filter is a total
  function, the sort has an outcome, no outcome is undefined behaviour, and the sum loop
  returns a value on every outcome.
\<close>

theorem empty_filter_case:
  "((\<forall>p\<in>set curves. \<not> is_Circle p) \<longrightarrow>
        extract_circles curves = []
      \<and> (\<forall>out. std_sort radius_less (extract_circles curves) out \<longleftrightarrow> out = Some [])
      \<and> sum_of_radii [] = Some 0 \<and> sum_of_radii_b64 [] = Some 0)
   \<and> (\<exists>ys. std_sort radius_less (extract_circles curves) (Some ys))
   \<and> (\<forall>out. std_sort radius_less (extract_circles curves) out \<longrightarrow>
         (\<exists>ys s. out = Some ys \<and> sum_of_radii ys = Some s))"
proof (intro conjI impI allI)
  assume none: "\<forall>p\<in>set curves. \<not> is_Circle p"
  then have "filter is_Circle curves = []"
    by (simp add: filter_empty_conv)
  then have "map upcast (extract_circles curves) = []"
    by (simp add: map_upcast_extract_circles)
  then show e: "extract_circles curves = []"
    by simp
  fix out
  show "std_sort radius_less (extract_circles curves) out \<longleftrightarrow> out = Some []"
    unfolding e by (cases out) (auto simp add: std_sort_def strict_weak_ordering_def sorted_by_def)
next
  show "sum_of_radii [] = Some 0"
    by (simp add: sum_of_radii_def)
next
  show "sum_of_radii_b64 [] = Some 0"
    by (simp add: sum_of_radii_b64_def)
next
  show "\<exists>ys. std_sort radius_less (extract_circles curves) (Some ys)"
    using extract_circles_no_nullptr by (rule std_sort_returns)
next
  fix out
  assume "std_sort radius_less (extract_circles curves) out"
  then obtain ys where "out = Some ys" "nullptr \<notin> set ys"
    using std_sort_outcome [OF extract_circles_no_nullptr] by blast
  then show "\<exists>ys s. out = Some ys \<and> sum_of_radii ys = Some s"
    by (simp add: sum_of_radii_def sum_loop_radii)
qed

theorem empty_filter_case_witness:
  "\<not> is_Circle (Ptr 0 (Ellipse_obj (Ellipse 1 2)))
   \<and> \<not> is_Circle (Ptr 1 (Helix_obj (Helix 2 1))) \<and> \<not> is_Circle nullptr
   \<and> extract_circles [Ptr 0 (Ellipse_obj (Ellipse 1 2)), Ptr 1 (Helix_obj (Helix 2 1)), nullptr] = []
   \<and> std_sort radius_less
       (extract_circles [Ptr 0 (Ellipse_obj (Ellipse 1 2)), Ptr 1 (Helix_obj (Helix 2 1)), nullptr])
       (Some [])
   \<and> sum_of_radii [] = Some 0"
proof -
  have h: "\<forall>p\<in>set [Ptr 0 (Ellipse_obj (Ellipse 1 2)), Ptr 1 (Helix_obj (Helix 2 1)), nullptr].
       \<not> is_Circle p"
    by simp
  from h empty_filter_case
      [of "[Ptr 0 (Ellipse_obj (Ellipse 1 2)), Ptr 1 (Helix_obj (Helix 2 1)), nullptr]"]
  have "extract_circles
          [Ptr 0 (Ellipse_obj (Ellipse 1 2)), Ptr 1 (Helix_obj (Helix 2 1)), nullptr] = []"
    and "std_sort radius_less
       (extract_circles [Ptr 0 (Ellipse_obj (Ellipse 1 2)), Ptr 1 (Helix_obj (Helix 2 1)), nullptr])
       (Some [])"
    and "sum_of_radii [] = Some 0"
    by blast+
  then show ?thesis
    by simp
qed

end
